theory Spec2Isabelle
  imports Complex_Main "HOL-Library.Log_Nat"
begin

section \<open>Strings\<close>

text \<open>
  Python strings are modelled as \<^typ>\<open>string\<close>. The program only compares characters
  with the ASCII characters quote, dot, slash and underscore, lower-cases a suffix to
  compare it with ASCII extensions, and prints a counter in decimal.
\<close>

definition py_strip :: "string \<Rightarrow> string \<Rightarrow> string" where
  \<comment> \<open>\<^verbatim>\<open>s.strip(chars)\<close>: drop every leading and trailing character that is in \<^verbatim>\<open>chars\<close>\<close>
  "py_strip chars s =
     rev (dropWhile (\<lambda>c. c \<in> set chars) (rev (dropWhile (\<lambda>c. c \<in> set chars) s)))"

definition rfind :: "char \<Rightarrow> string \<Rightarrow> int" where
  \<comment> \<open>\<^verbatim>\<open>s.rfind(c)\<close>: the highest index of \<^verbatim>\<open>c\<close>, or -1\<close>
  "rfind c s =
     (if c \<in> set s then int (length s) - 1 - int (length (takeWhile (\<lambda>x. x \<noteq> c) (rev s)))
      else - 1)"

definition lower_char :: "char \<Rightarrow> char" where
  "lower_char c =
     (let n = (of_char c :: nat) in if 65 \<le> n \<and> n \<le> 90 then char_of (n + 32) else c)"

definition py_lower :: "string \<Rightarrow> string" where
  "py_lower s = map lower_char s"



definition digit_char :: "nat \<Rightarrow> char" where
  "digit_char d = char_of (48 + d)"

fun str_nat :: "nat \<Rightarrow> string" where
  "str_nat n = (if n < 10 then [digit_char n] else str_nat (n div 10) @ [digit_char (n mod 10)])"

declare str_nat.simps [simp del]

fun split_on :: "char \<Rightarrow> string \<Rightarrow> string list" where
  "split_on sep [] = [[]]"
| "split_on sep (c # cs) =
     (if c = sep then [] # split_on sep cs
      else (case split_on sep cs of [] \<Rightarrow> [[c]] | w # ws \<Rightarrow> (c # w) # ws))"

section \<open>Paths\<close>

text \<open>
  \<^verbatim>\<open>pathlib.Path\<close> in its POSIX flavour: a root (empty, one slash or two slashes) and
  the list of components. Parsing drops empty components and single dots; \<^verbatim>\<open>..\<close>
  is kept. \<^verbatim>\<open>suffix\<close> and \<^verbatim>\<open>stem\<close> split the last component at its last dot when
  that dot is neither the first nor the last character.
\<close>

datatype path = Path (root: string) (parts: "string list")

definition parse_root :: "string \<Rightarrow> string" where
  "parse_root s =
     (if take 1 s \<noteq> ''/'' then ''''
      else if take 1 (drop 1 s) \<noteq> ''/'' \<or> take 1 (drop 2 s) = ''/'' then ''/''
      else ''//'')"

definition parse_path :: "string \<Rightarrow> path" where
  "parse_path s =
     Path (parse_root s) (filter (\<lambda>x. x \<noteq> [] \<and> x \<noteq> ''.'') (split_on CHR ''/'' s))"

definition joinpath :: "path \<Rightarrow> string \<Rightarrow> path" where
  \<comment> \<open>\<^verbatim>\<open>p / s\<close>: an anchored right operand replaces the left one\<close>
  "joinpath p s =
     (let q = parse_path s in if root q \<noteq> [] then q else Path (root p) (parts p @ parts q))"

definition name :: "path \<Rightarrow> string" where
  "name p = (if parts p = [] then [] else last (parts p))"

definition suffix_of_name :: "string \<Rightarrow> string" where
  "suffix_of_name n =
     (let i = rfind CHR ''.'' n in
      if 0 < i \<and> i < int (length n) - 1 then drop (nat i) n else [])"

definition stem_of_name :: "string \<Rightarrow> string" where
  "stem_of_name n =
     (let i = rfind CHR ''.'' n in
      if 0 < i \<and> i < int (length n) - 1 then take (nat i) n else n)"

definition suffix :: "path \<Rightarrow> string" where
  "suffix p = suffix_of_name (name p)"

definition stem :: "path \<Rightarrow> string" where
  "stem p = stem_of_name (name p)"

definition parent :: "path \<Rightarrow> path" where
  "parent p = (if parts p = [] then p else Path (root p) (butlast (parts p)))"

section \<open>The file system\<close>

text \<open>
  The file system is an association list from paths to nodes; its order is the order
  in which a directory enumerates its children. The content of a regular file is left
  abstract, and every entry can be read and written.

  An entry records what its path resolves to, as \<^verbatim>\<open>stat\<close> reports it: a symbolic link to a
  directory or to a file is the node of its target (that two paths can name one file is
  not modelled). What \<^verbatim>\<open>stat\<close> cannot report is a link whose chain of targets ends at a
  path that is missing; such a link is \<open>Dangling t\<close>, where \<open>t\<close> is the missing path. It
  is an entry of its directory, so a directory lists it and \<^verbatim>\<open>mkdir\<close> and \<^verbatim>\<open>remove\<close> find
  it, but \<^verbatim>\<open>exists\<close>, \<^verbatim>\<open>is_dir\<close> and \<^verbatim>\<open>is_file\<close> are false of it and it cannot be opened
  for reading. Opened for writing, it creates the file at \<open>t\<close>. When a path comes into
  being, the links that ended there resolve to the new node.
\<close>

datatype 'c node = Dir | File 'c | Other | Dangling path

type_synonym 'c fs = "(path \<times> 'c node) list"

datatype exn =
    ZeroDivisionError
  | OverflowError
  | FileExistsError
  | FileNotFoundError
  | NotADirectoryError
  | IsADirectoryError
  | OSError
  | UnicodeEncodeError
  | PILError string

definition path_exists :: "'c fs \<Rightarrow> path \<Rightarrow> bool" where
  \<comment> \<open>\<^verbatim>\<open>p.exists()\<close> follows links: false of a dangling link\<close>
  "path_exists fs p =
     (case map_of fs p of None \<Rightarrow> False | Some (Dangling t) \<Rightarrow> False | Some _ \<Rightarrow> True)"

definition is_dir :: "'c fs \<Rightarrow> path \<Rightarrow> bool" where
  "is_dir fs p = (case map_of fs p of Some Dir \<Rightarrow> True | _ \<Rightarrow> False)"

definition is_file :: "'c fs \<Rightarrow> path \<Rightarrow> bool" where
  "is_file fs p = (case map_of fs p of Some (File c) \<Rightarrow> True | _ \<Rightarrow> False)"

definition iterdir :: "'c fs \<Rightarrow> path \<Rightarrow> path list" where
  "iterdir fs d = filter (\<lambda>p. parts p \<noteq> [] \<and> parent p = d) (map fst fs)"

definition create :: "'c fs \<Rightarrow> path \<Rightarrow> 'c node \<Rightarrow> 'c fs" where
  \<comment> \<open>a new entry at the missing path \<open>p\<close>; the links that ended at \<open>p\<close> now resolve to it\<close>
  "create fs p n =
     map (\<lambda>(q, x). (q, case x of Dangling t \<Rightarrow> if t = p then n else x | _ \<Rightarrow> x)) fs
       @ [(p, n)]"

definition missing_in_parent :: "'c fs \<Rightarrow> path \<Rightarrow> exn option" where
  \<comment> \<open>what stops the creation of the missing path \<open>p\<close>: its parent is not a directory\<close>
  "missing_in_parent fs p =
     (case map_of fs (parent p) of
        Some Dir \<Rightarrow> None
      | Some (Dangling t) \<Rightarrow> Some FileNotFoundError
      | Some _ \<Rightarrow> Some NotADirectoryError
      | None \<Rightarrow> Some FileNotFoundError)"

definition mkdir_exist_ok :: "'c fs \<Rightarrow> path \<Rightarrow> exn + 'c fs" where
  \<comment> \<open>\<^verbatim>\<open>p.mkdir(exist_ok=True)\<close>, without \<^verbatim>\<open>parents\<close>; \<^verbatim>\<open>mkdir\<close> does not follow a link at \<open>p\<close>\<close>
  "mkdir_exist_ok fs p =
     (case map_of fs p of
        Some Dir \<Rightarrow> Inr fs
      | Some _ \<Rightarrow> Inl FileExistsError
      | None \<Rightarrow>
          (case missing_in_parent fs p of
             None \<Rightarrow> Inr (create fs p Dir)
           | Some e \<Rightarrow> Inl e))"

definition open_for_writing :: "'c fs \<Rightarrow> path \<Rightarrow> exn option" where
  \<comment> \<open>\<^verbatim>\<open>open(p, "w+b")\<close> follows a link at \<open>p\<close> and creates what is missing\<close>
  "open_for_writing fs p =
     (case map_of fs p of
        Some Dir \<Rightarrow> Some IsADirectoryError
      | Some (Dangling t) \<Rightarrow> missing_in_parent fs t
      | Some _ \<Rightarrow> None
      | None \<Rightarrow> missing_in_parent fs p)"

definition write_file :: "'c fs \<Rightarrow> path \<Rightarrow> 'c \<Rightarrow> 'c fs" where
  \<comment> \<open>the file system once \<open>p\<close>, opened for writing, holds \<open>c\<close>\<close>
  "write_file fs p c =
     (case map_of fs p of
        None \<Rightarrow> create fs p (File c)
      | Some (Dangling t) \<Rightarrow> create fs t (File c)
      | Some _ \<Rightarrow> map (\<lambda>(q, n). if q = p then (q, File c) else (q, n)) fs)"

definition os_remove :: "'c fs \<Rightarrow> path \<Rightarrow> 'c fs" where
  \<comment> \<open>\<^verbatim>\<open>os.remove(p)\<close> removes the entry \<open>p\<close>, a link itself and not its target\<close>
  "os_remove fs p = filter (\<lambda>(q, n). q \<noteq> p) fs"

section \<open>The filename resolver\<close>

partial_function (option) next_free ::
  "'c fs \<Rightarrow> path \<Rightarrow> string \<Rightarrow> string \<Rightarrow> nat \<Rightarrow> path option" where
  "next_free fs directory stm sfx counter =
     (if \<not> path_exists fs (joinpath directory (stm @ ''_'' @ str_nat counter @ sfx))
      then Some (joinpath directory (stm @ ''_'' @ str_nat counter @ sfx))
      else next_free fs directory stm sfx (counter + 1))"

declare next_free.simps [code]

definition get_unique_filepath :: "'c fs \<Rightarrow> path \<Rightarrow> string \<Rightarrow> path option" where
  "get_unique_filepath fs directory filename =
     (let file_path = joinpath directory filename in
      if \<not> path_exists fs file_path then Some file_path
      else next_free fs directory (stem file_path) (suffix file_path) 1)"

section \<open>Floating point\<close>

text \<open>
  Python's \<^verbatim>\<open>int / int\<close>, the conversion of an \<^verbatim>\<open>int\<close> to \<^verbatim>\<open>float\<close> and the product of
  two floats are correctly rounded IEEE 754 binary64 operations (round to nearest, ties
  to even). A finite float is modelled by the rational number it denotes; the two
  zeros are identified, and so are the two infinities, since the program only
  truncates the result to an integer.
\<close>

datatype pyfloat = Finite rat | Inf

definition ilog2 :: "rat \<Rightarrow> int" where
  \<comment> \<open>for \<open>0 < q\<close>: the exponent \<open>e\<close> with \<open>2 powi e \<le> q < 2 powi (e + 1)\<close>\<close>
  "ilog2 q =
     (let d = bitlen (fst (quotient_of q)) - bitlen (snd (quotient_of q))
      in if 2 powi d \<le> q then d else d - 1)"

definition round_half_even :: "rat \<Rightarrow> int" where
  "round_half_even x =
     (let f = \<lfloor>x\<rfloor>; r = x - of_int f in
      if r < 1 / 2 then f else if 1 / 2 < r then f + 1 else if even f then f else f + 1)"

definition round_double_pos :: "rat \<Rightarrow> pyfloat" where
  \<comment> \<open>for \<open>0 < q\<close>: 53 significant bits, least exponent -1074, overflow from \<open>2 ^ 1024\<close>\<close>
  "round_double_pos q =
     (let e = max (ilog2 q - 52) (- 1074);
          r = of_int (round_half_even (q / 2 powi e)) * 2 powi e
      in if r < 2 ^ 1024 then Finite r else Inf)"

definition round_double :: "rat \<Rightarrow> pyfloat" where
  "round_double q =
     (if q = 0 then Finite 0
      else if 0 < q then round_double_pos q
      else (case round_double_pos (- q) of Finite r \<Rightarrow> Finite (- r) | Inf \<Rightarrow> Inf))"

definition py_truediv :: "int \<Rightarrow> int \<Rightarrow> exn + rat" where
  "py_truediv a b =
     (if b = 0 then Inl ZeroDivisionError
      else (case round_double (of_int a / of_int b) of
              Inf \<Rightarrow> Inl OverflowError
            | Finite r \<Rightarrow> Inr r))"

definition py_float_of_int :: "int \<Rightarrow> exn + rat" where
  "py_float_of_int n =
     (case round_double (of_int n) of Inf \<Rightarrow> Inl OverflowError | Finite r \<Rightarrow> Inr r)"

definition float_mul :: "rat \<Rightarrow> rat \<Rightarrow> pyfloat" where
  "float_mul x y = round_double (x * y)"

definition py_int :: "pyfloat \<Rightarrow> exn + int" where
  \<comment> \<open>\<^verbatim>\<open>int(x)\<close> truncates towards zero\<close>
  "py_int x =
     (case x of
        Inf \<Rightarrow> Inl OverflowError
      | Finite r \<Rightarrow> Inr (if 0 \<le> r then \<lfloor>r\<rfloor> else \<lceil>r\<rceil>))"

definition new_height :: "int \<Rightarrow> int \<Rightarrow> int \<Rightarrow> exn + int" where
  \<comment> \<open>\<^verbatim>\<open>int((max_width / width) * height)\<close>\<close>
  "new_height max_width width height =
     (case py_truediv max_width width of
        Inl e \<Rightarrow> Inl e
      | Inr ratio \<Rightarrow>
          (case py_float_of_int height of
             Inl e \<Rightarrow> Inl e
           | Inr h \<Rightarrow> py_int (float_mul ratio h)))"

section \<open>Images and the imaging library\<close>

text \<open>
  An image is its size and its mode; pixels are not modelled. What the imaging library
  decides by itself is a parameter: whether a file's content decodes, whether loading
  the pixels or resampling fails, and what the encoder produces. \<^verbatim>\<open>convert\<close> keeps the
  size, \<^verbatim>\<open>resize\<close> returns an image of the requested size.

  \<^verbatim>\<open>save\<close> notes whether the target exists, opens it for writing and runs the encoder.
  When the encoder raises, \<^verbatim>\<open>save\<close> closes the file and, if the target did not exist,
  calls \<^verbatim>\<open>os.remove\<close> on it. For a path without an entry this undoes the creation. For a
  dangling link it removes the link, and the file that the open created at the link's
  target stays, with what the encoder had written. A file that was there before keeps
  what had been written.
\<close>

record image =
  img_size :: "int \<times> int"
  img_mode :: string

datatype save_args = SaveArgs (arg_format: string) (arg_quality: nat) (arg_method: "nat option")

record 'c pil =
  pil_open :: "'c \<Rightarrow> exn + image"
  pil_load :: "image \<Rightarrow> exn option"
  pil_resize :: "image \<Rightarrow> int \<times> int \<Rightarrow> exn option"
  pil_save :: "save_args \<Rightarrow> image \<Rightarrow> (exn \<times> 'c) + 'c"

definition image_open :: "'c pil \<Rightarrow> 'c fs \<Rightarrow> path \<Rightarrow> exn + image" where
  "image_open pil fs p =
     (case map_of fs p of
        None \<Rightarrow> Inl FileNotFoundError
      | Some (Dangling t) \<Rightarrow> Inl FileNotFoundError
      | Some Dir \<Rightarrow> Inl IsADirectoryError
      | Some Other \<Rightarrow> Inl OSError
      | Some (File c) \<Rightarrow> pil_open pil c)"

definition convert :: "'c pil \<Rightarrow> image \<Rightarrow> string \<Rightarrow> exn + image" where
  "convert pil img m =
     (case pil_load pil img of Some e \<Rightarrow> Inl e | None \<Rightarrow> Inr (img\<lparr>img_mode := m\<rparr>))"

definition resize :: "'c pil \<Rightarrow> image \<Rightarrow> int \<times> int \<Rightarrow> exn + image" where
  "resize pil img sz =
     (case pil_resize pil img sz of Some e \<Rightarrow> Inl e | None \<Rightarrow> Inr (img\<lparr>img_size := sz\<rparr>))"

definition img_save :: "'c pil \<Rightarrow> 'c fs \<Rightarrow> path \<Rightarrow> save_args \<Rightarrow> image \<Rightarrow> 'c fs \<times> exn option" where
  \<comment> \<open>\<^verbatim>\<open>img.save(p, ...)\<close>; when the encoder raises and \<open>p\<close> did not exist, a path without
      an entry is created and removed again, and a dangling link is removed after the file
      at its target was created\<close>
  "img_save pil fs p args img =
     (case open_for_writing fs p of
        Some e \<Rightarrow> (fs, Some e)
      | None \<Rightarrow>
          (case pil_save pil args img of
             Inr c \<Rightarrow> (write_file fs p c, None)
           | Inl (e, written) \<Rightarrow>
               (if path_exists fs p then write_file fs p written
                else (case map_of fs p of
                        None \<Rightarrow> fs
                      | Some _ \<Rightarrow> os_remove (write_file fs p written) p),
                Some e)))"

section \<open>The pipeline\<close>

text \<open>
  \<^verbatim>\<open>process_images\<close> returns nothing; what it does is print and change the file system.
  The model returns the file system it leaves, the lines it has printed, one message
  per \<^verbatim>\<open>print\<close>, in order, and the exception that left the function, if one did.

  A \<^verbatim>\<open>print\<close> can raise: a line that the encoding of the standard output cannot
  represent raises \<^verbatim>\<open>UnicodeEncodeError\<close>, a closed pipe raises \<^verbatim>\<open>OSError\<close>. The standard
  output is therefore a parameter: \<open>stdout out m\<close> is the exception that printing
  the line \<open>m\<close> raises after the lines \<open>out\<close>, or \<open>None\<close> when the line is written.
  The two \<^verbatim>\<open>print\<close> calls of lines 105 to 108 stand inside the \<^verbatim>\<open>try\<close>, so what they
  raise is caught by the handler of line 112; the \<^verbatim>\<open>print\<close> of line 113 stands inside that
  handler, so what it raises leaves the loop and the function, and so does what any
  \<^verbatim>\<open>print\<close> outside the loop raises.

  Every exception the body of the \<^verbatim>\<open>try\<close> can raise is a value of \<^typ>\<open>exn\<close>, and the loop
  of the resolver is the only part that may not return.
\<close>

definition IMAGE_EXTENSIONS :: "string list" where
  "IMAGE_EXTENSIONS = [''.jpg'', ''.jpeg'', ''.png'', ''.webp'', ''.bmp'', ''.tiff'']"

datatype msg =
    Analyzing
  | Ignored string
  | NoImages
  | Starting nat int string
  | Saved string bool
  | Failed string exn
  | Done nat nat

definition settings :: "string \<Rightarrow> string \<times> string \<times> string" where
  \<comment> \<open>\<^verbatim>\<open>(save_format, save_extension, output_folder_name)\<close>\<close>
  "settings mode_type =
     (if mode_type \<in> set [''webp'', ''w''] then (''WebP'', ''.webp'', ''webp'')
      else (''JPEG'', ''.jpg'', ''jpg''))"

definition clean :: "string \<Rightarrow> string" where
  \<comment> \<open>\<^verbatim>\<open>p_str.strip('"').strip("'")\<close>\<close>
  "clean p_str = py_strip [CHR 0x27] (py_strip [CHR 0x22] p_str)"

definition supported :: "path \<Rightarrow> bool" where
  "supported p = (py_lower (suffix p) \<in> set IMAGE_EXTENSIONS)"

type_synonym stdout = "msg list \<Rightarrow> msg \<Rightarrow> exn option"

fun collect ::
  "stdout \<Rightarrow> 'c fs \<Rightarrow> string list \<Rightarrow> path list \<Rightarrow> msg list
     \<Rightarrow> path list \<times> msg list \<times> exn option" where
  \<comment> \<open>the loop of lines 55 to 70: the candidates, the lines printed, the exception that ended it\<close>
  "collect stdout fs [] target_files out = (target_files, out, None)"
| "collect stdout fs (p_str # rest) target_files out =
     (let clean_path = clean p_str in
      if clean_path = [] then collect stdout fs rest target_files out
      else
        (let path_obj = parse_path clean_path in
         if is_dir fs path_obj then
           collect stdout fs rest
             (target_files @ filter (\<lambda>child. is_file fs child \<and> supported child) (iterdir fs path_obj))
             out
         else if is_file fs path_obj then
           collect stdout fs rest
             (if supported path_obj then target_files @ [path_obj] else target_files) out
         else
           (case stdout out (Ignored clean_path) of
              Some e \<Rightarrow> (target_files, out, Some e)
            | None \<Rightarrow> collect stdout fs rest target_files (out @ [Ignored clean_path]))))"

definition save_arguments :: "string \<Rightarrow> save_args" where
  "save_arguments save_format =
     (if save_format = ''WebP'' then SaveArgs ''WebP'' 80 (Some 6) else SaveArgs ''JPEG'' 80 None)"

definition resize_step :: "'c pil \<Rightarrow> int \<Rightarrow> image \<Rightarrow> exn + image" where
  "resize_step pil max_width img =
     (let (width, height) = img_size img in
      if width > max_width then
        (case new_height max_width width height of
           Inl e \<Rightarrow> Inl e
         | Inr nh \<Rightarrow> resize pil img (max_width, nh))
      else Inr img)"

definition process_one ::
  "'c pil \<Rightarrow> int \<Rightarrow> string \<times> string \<times> string \<Rightarrow> 'c fs \<Rightarrow> path \<Rightarrow> ('c fs \<times> (exn + path)) option" where
  \<comment> \<open>lines 83 to 102, the body of the \<^verbatim>\<open>try\<close> up to the save: the file system it leaves, and
      the exception or the output path\<close>
  "process_one pil max_width cfg fs image_path =
     (let save_format = fst cfg;
          save_extension = fst (snd cfg);
          output_folder_name = snd (snd cfg);
          output_dir = joinpath (parent image_path) output_folder_name
      in
       (case mkdir_exist_ok fs output_dir of
          Inl e \<Rightarrow> Some (fs, Inl e)
        | Inr fs1 \<Rightarrow>
            (case image_open pil fs1 image_path of
               Inl e \<Rightarrow> Some (fs1, Inl e)
             | Inr img0 \<Rightarrow>
                 (case convert pil img0 ''RGB'' of
                    Inl e \<Rightarrow> Some (fs1, Inl e)
                  | Inr img1 \<Rightarrow>
                      (case resize_step pil max_width img1 of
                         Inl e \<Rightarrow> Some (fs1, Inl e)
                       | Inr img2 \<Rightarrow>
                           (case get_unique_filepath fs1 output_dir (stem image_path @ save_extension) of
                              None \<Rightarrow> None
                            | Some output_path \<Rightarrow>
                                (case img_save pil fs1 output_path (save_arguments save_format) img2 of
                                   (fs2, Some e) \<Rightarrow> Some (fs2, Inl e)
                                 | (fs2, None) \<Rightarrow> Some (fs2, Inr output_path))))))))"





section \<open>Vocabulary of the specification\<close>

definition is_filename :: "string \<Rightarrow> bool" where
  \<comment> \<open>a single path component: what \<^verbatim>\<open>pathlib\<close> keeps as one part\<close>
  "is_filename f = (f \<noteq> [] \<and> f \<noteq> ''.'' \<and> CHR ''/'' \<notin> set f)"

definition wf_path :: "path \<Rightarrow> bool" where
  \<comment> \<open>the invariant of every \<^verbatim>\<open>pathlib\<close> path: each part is a single component\<close>
  "wf_path p = list_all is_filename (parts p)"




definition quiet :: stdout where
  \<comment> \<open>a standard output that takes every line\<close>
  "quiet out m = None"





text \<open>
  A worked example: the content of a file is the size of the image it decodes to, or
  nothing when it is corrupt; the encoder never fails. The directory holds five images,
  one corrupt file and a text file.
\<close>

definition example_pil :: "(int \<times> int) option pil" where
  "example_pil =
     \<lparr> pil_open = (\<lambda>c. case c of
                        None \<Rightarrow> Inl (PILError ''cannot identify image file'')
                      | Some sz \<Rightarrow> Inr \<lparr> img_size = sz, img_mode = ''RGBA'' \<rparr>),
       pil_load = (\<lambda>img. None),
       pil_resize = (\<lambda>img sz. None),
       pil_save = (\<lambda>args img. Inr (Some (img_size img))) \<rparr>"

definition example_fs :: "(int \<times> int) option fs" where
  "example_fs =
     [(parse_path ''photos'', Dir),
      (parse_path ''photos/a.png'', File (Some (2000, 1000))),
      (parse_path ''photos/b.jpg'', File (Some (800, 3000))),
      (parse_path ''photos/bad.png'', File None),
      (parse_path ''photos/c.bmp'', File (Some (1392, 1160))),
      (parse_path ''photos/notes.txt'', File None),
      (parse_path ''photos/d.webp'', File (Some (640, 480))),
      (parse_path ''photos/e.tiff'', File (Some (1200, 900)))]"




section \<open>Facts about strings and paths\<close>

lemma split_on_no_sep: "sep \<notin> set s \<Longrightarrow> split_on sep s = [s]"
  by (induction s) auto

lemma parse_path_filename: "is_filename f \<Longrightarrow> parse_path f = Path [] [f]"
  by (cases f) (auto simp: is_filename_def parse_path_def parse_root_def split_on_no_sep)

lemma joinpath_filename: "is_filename f \<Longrightarrow> joinpath d f = Path (root d) (parts d @ [f])"
  by (simp add: joinpath_def parse_path_filename)

lemma of_char_digit_char: "d < 10 \<Longrightarrow> (of_char (digit_char d) :: nat) = 48 + d"
  by (simp add: digit_char_def)

lemma digit_char_inj: "a < 10 \<Longrightarrow> b < 10 \<Longrightarrow> digit_char a = digit_char b \<Longrightarrow> a = b"
proof -
  assume a: "a < 10" and b: "b < 10" and e: "digit_char a = digit_char b"
  have "(of_char (digit_char a) :: nat) = of_char (digit_char b)" by (simp only: e)
  then have "48 + a = 48 + b" by (simp only: of_char_digit_char[OF a] of_char_digit_char[OF b])
  then show "a = b" by (rule add_left_imp_eq)
qed

lemma digit_char_not_slash: "d < 10 \<Longrightarrow> digit_char d \<noteq> CHR ''/''"
  using of_char_digit_char[of d] by auto

lemma str_nat_no_slash: "CHR ''/'' \<notin> set (str_nat n)"
proof (induction n rule: str_nat.induct)
  case (1 n)
  show ?case
  proof (cases "n < 10")
    case True
    then show ?thesis by (subst str_nat.simps) (simp add: digit_char_not_slash[symmetric])
  next
    case False
    have "n mod 10 < 10" by simp
    then have "digit_char (n mod 10) \<noteq> CHR ''/''" by (rule digit_char_not_slash)
    with False "1.IH" show ?thesis by (subst str_nat.simps) auto
  qed
qed

lemma str_nat_nonempty [simp]: "str_nat n \<noteq> []" "[] \<noteq> str_nat n"
  by (subst str_nat.simps, simp)+

lemma str_nat_inj: "str_nat a = str_nat b \<Longrightarrow> a = b"
proof (induction a arbitrary: b rule: str_nat.induct)
  case (1 n)
  show ?case
  proof (cases "n < 10")
    case True
    then have sn: "str_nat n = [digit_char n]" by (subst str_nat.simps) simp
    show ?thesis
    proof (cases "b < 10")
      case True
      then have "str_nat b = [digit_char b]" by (subst str_nat.simps) simp
      with sn "1.prems" have "digit_char n = digit_char b" by simp
      with \<open>n < 10\<close> True show ?thesis by (rule digit_char_inj)
    next
      case False
      then have "str_nat b = str_nat (b div 10) @ [digit_char (b mod 10)]"
        by (subst str_nat.simps) simp
      with sn "1.prems" show ?thesis by simp
    qed
  next
    case False
    then have sn: "str_nat n = str_nat (n div 10) @ [digit_char (n mod 10)]"
      by (subst str_nat.simps) simp
    show ?thesis
    proof (cases "b < 10")
      case True
      then have "str_nat b = [digit_char b]" by (subst str_nat.simps) simp
      with sn "1.prems" show ?thesis by simp
    next
      case bF: False
      then have "str_nat b = str_nat (b div 10) @ [digit_char (b mod 10)]"
        by (subst str_nat.simps) simp
      with sn "1.prems" have e: "str_nat (n div 10) = str_nat (b div 10)"
        and d: "digit_char (n mod 10) = digit_char (b mod 10)" by simp_all
      from "1.IH"[OF False e] have q: "n div 10 = b div 10" .
      have r: "n mod 10 = b mod 10"
        by (rule digit_char_inj[OF _ _ d]) simp_all
      have "n = n div 10 * 10 + n mod 10" by (rule div_mult_mod_eq[symmetric])
      also have "\<dots> = b div 10 * 10 + b mod 10" by (simp only: q r)
      also have "\<dots> = b" by (rule div_mult_mod_eq)
      finally show ?thesis .
    qed
  qed
qed

section \<open>Facts about the resolver\<close>

lemma name_joinpath_filename: "is_filename f \<Longrightarrow> name (joinpath d f) = f"
  by (simp add: joinpath_filename name_def)

lemma parent_joinpath_filename: "is_filename f \<Longrightarrow> parent (joinpath d f) = Path (root d) (parts d)"
  by (simp add: joinpath_filename parent_def)

lemma stem_of_name_sub: "set (stem_of_name n) \<subseteq> set n"
  by (auto simp: stem_of_name_def Let_def dest: in_set_takeD)

lemma suffix_of_name_sub: "set (suffix_of_name n) \<subseteq> set n"
  by (auto simp: suffix_of_name_def Let_def dest: in_set_dropD)

lemma numbered_is_filename:
  "CHR ''/'' \<notin> set s \<Longrightarrow> CHR ''/'' \<notin> set x \<Longrightarrow> is_filename (s @ ''_'' @ str_nat k @ x)"
proof -
  assume s: "CHR ''/'' \<notin> set s" and x: "CHR ''/'' \<notin> set x"
  have "s @ ''_'' @ str_nat k @ x \<noteq> ''.''"
  proof
    assume e: "s @ ''_'' @ str_nat k @ x = ''.''"
    have "CHR ''_'' \<in> set (s @ ''_'' @ str_nat k @ x)" by simp
    then have "CHR ''_'' \<in> set ''.''" by (simp only: e)
    then show False by simp
  qed
  moreover have "s @ ''_'' @ str_nat k @ x \<noteq> []" by simp
  moreover have "CHR ''/'' \<notin> set (s @ ''_'' @ str_nat k @ x)"
    using s x by (simp add: str_nat_no_slash)
  ultimately show ?thesis unfolding is_filename_def by blast
qed

lemma numbered_inj:
  assumes "CHR ''/'' \<notin> set s" "CHR ''/'' \<notin> set x"
  shows "inj (\<lambda>k. joinpath d (s @ ''_'' @ str_nat k @ x))"
proof (rule injI)
  fix a b assume "joinpath d (s @ ''_'' @ str_nat a @ x) = joinpath d (s @ ''_'' @ str_nat b @ x)"
  then have "s @ ''_'' @ str_nat a @ x = s @ ''_'' @ str_nat b @ x"
    unfolding joinpath_filename[OF numbered_is_filename[OF assms]] by simp
  then have "str_nat a = str_nat b" by simp
  then show "a = b" by (rule str_nat_inj)
qed

lemma path_exists_entry: "path_exists fs p \<Longrightarrow> p \<in> fst ` set fs"
proof -
  assume "path_exists fs p"
  then have "map_of fs p \<noteq> None" by (auto simp: path_exists_def split: option.splits)
  then show ?thesis by (simp only: map_of_eq_None_iff not_not)
qed

lemma some_free:
  assumes "inj (cand :: nat \<Rightarrow> path)"
  shows "\<exists>k. c \<le> k \<and> \<not> path_exists fs (cand k)"
proof (rule ccontr)
  assume "\<not> ?thesis"
  then have all: "\<And>k. c \<le> k \<Longrightarrow> path_exists fs (cand k)" by blast
  let ?S = "{c .. c + length fs}"
  have "cand ` ?S \<subseteq> fst ` set fs" using all by (auto intro: path_exists_entry)
  then have "card (cand ` ?S) \<le> card (fst ` set fs)" by (intro card_mono) auto
  moreover have "card (cand ` ?S) = length fs + 1"
    using assms by (subst card_image) (auto intro: inj_on_subset)
  moreover have "card (fst ` set fs) \<le> length fs"
    by (rule le_trans[OF card_image_le[OF finite_set] card_length])
  ultimately show False by simp
qed

lemma next_free_least:
  assumes "\<not> path_exists fs (joinpath d (s @ ''_'' @ str_nat k @ x))"
    and "c \<le> k"
    and "\<forall>j. c \<le> j \<and> j < k \<longrightarrow> path_exists fs (joinpath d (s @ ''_'' @ str_nat j @ x))"
  shows "next_free fs d s x c = Some (joinpath d (s @ ''_'' @ str_nat k @ x))"
  using assms
proof (induction "k - c" arbitrary: c)
  case 0
  then have "c = k" by simp
  with "0.prems"(1) show ?case by (subst next_free.simps) simp
next
  case (Suc n)
  then have lt: "c < k" by simp
  with Suc.prems(3) have ex: "path_exists fs (joinpath d (s @ ''_'' @ str_nat c @ x))" by simp
  have "next_free fs d s x (c + 1) = Some (joinpath d (s @ ''_'' @ str_nat k @ x))"
  proof (rule Suc.hyps(1))
    show "n = k - (c + 1)" using Suc.hyps(2) by simp
    show "\<not> path_exists fs (joinpath d (s @ ''_'' @ str_nat k @ x))" by (rule Suc.prems(1))
    show "c + 1 \<le> k" using lt by simp
    show "\<forall>j. c + 1 \<le> j \<and> j < k \<longrightarrow> path_exists fs (joinpath d (s @ ''_'' @ str_nat j @ x))"
      using Suc.prems(3) by simp
  qed
  with ex show ?case by (subst next_free.simps) simp
qed

lemma next_free_sound:
  assumes "next_free fs d s x c = Some p"
  shows "\<not> path_exists fs p \<and>
     (\<exists>k. c \<le> k \<and> p = joinpath d (s @ ''_'' @ str_nat k @ x) \<and>
        (\<forall>j. c \<le> j \<and> j < k \<longrightarrow> path_exists fs (joinpath d (s @ ''_'' @ str_nat j @ x))))"
proof (rule next_free.raw_induct
    [where P = "\<lambda>fs d s x c p. \<not> path_exists fs p \<and>
       (\<exists>k. c \<le> k \<and> p = joinpath d (s @ ''_'' @ str_nat k @ x) \<and>
          (\<forall>j. c \<le> j \<and> j < k \<longrightarrow> path_exists fs (joinpath d (s @ ''_'' @ str_nat j @ x))))",
      OF _ assms], goal_cases)
  case (1 nf fs d s x c p)
  show ?case
  proof (cases "path_exists fs (joinpath d (s @ ''_'' @ str_nat c @ x))")
    case True
    with 1(2) have "nf fs d s x (c + 1) = Some p" by simp
    from 1(1)[OF this] obtain k where np: "\<not> path_exists fs p" and ck: "c + 1 \<le> k"
      and p: "p = joinpath d (s @ ''_'' @ str_nat k @ x)"
      and below: "\<forall>j. c + 1 \<le> j \<and> j < k \<longrightarrow> path_exists fs (joinpath d (s @ ''_'' @ str_nat j @ x))"
      by blast
    have "\<forall>j. c \<le> j \<and> j < k \<longrightarrow> path_exists fs (joinpath d (s @ ''_'' @ str_nat j @ x))"
    proof (intro allI impI)
      fix j assume j: "c \<le> j \<and> j < k"
      show "path_exists fs (joinpath d (s @ ''_'' @ str_nat j @ x))"
      proof (cases "j = c")
        case True
        with \<open>path_exists fs (joinpath d (s @ ''_'' @ str_nat c @ x))\<close> show ?thesis by simp
      next
        case False
        with j have "c + 1 \<le> j \<and> j < k" by simp
        with below show ?thesis by blast
      qed
    qed
    moreover from ck have "c \<le> k" by simp
    ultimately show ?thesis using np p by blast
  next
    case False
    with 1(2) have "p = joinpath d (s @ ''_'' @ str_nat c @ x)" by simp
    moreover have "\<forall>j. c \<le> j \<and> j < c \<longrightarrow> path_exists fs (joinpath d (s @ ''_'' @ str_nat j @ x))"
      by auto
    ultimately show ?thesis using False by blast
  qed
qed

lemma next_free_total:
  assumes "CHR ''/'' \<notin> set s" "CHR ''/'' \<notin> set x"
  shows "\<exists>p. next_free fs d s x c = Some p"
proof -
  from some_free[OF numbered_inj[OF assms], of c fs d]
  obtain k where k: "c \<le> k" "\<not> path_exists fs (joinpath d (s @ ''_'' @ str_nat k @ x))" by blast
  define m where "m = (LEAST k. c \<le> k \<and> \<not> path_exists fs (joinpath d (s @ ''_'' @ str_nat k @ x)))"
  have m: "c \<le> m \<and> \<not> path_exists fs (joinpath d (s @ ''_'' @ str_nat m @ x))"
    unfolding m_def by (rule LeastI[where k = k]) (use k in simp)
  have least: "\<forall>j. c \<le> j \<and> j < m \<longrightarrow> path_exists fs (joinpath d (s @ ''_'' @ str_nat j @ x))"
    unfolding m_def using not_less_Least by blast
  from next_free_least[OF _ _ least] m show ?thesis by blast
qed


lemma next_free_exists_least:
  assumes "c \<le> k" "\<not> path_exists fs (joinpath d (s @ ''_'' @ str_nat k @ x))"
  shows "\<exists>p. next_free fs d s x c = Some p"
proof -
  define m where "m = (LEAST k. c \<le> k \<and> \<not> path_exists fs (joinpath d (s @ ''_'' @ str_nat k @ x)))"
  have m: "c \<le> m \<and> \<not> path_exists fs (joinpath d (s @ ''_'' @ str_nat m @ x))"
    unfolding m_def by (rule LeastI[where k = k]) (use assms in simp)
  have least: "\<forall>j. c \<le> j \<and> j < m \<longrightarrow> path_exists fs (joinpath d (s @ ''_'' @ str_nat j @ x))"
    unfolding m_def using not_less_Least by blast
  from next_free_least[OF _ _ least] m show ?thesis by blast
qed

lemma stem_suffix_filename:
  assumes "is_filename f"
  shows "stem (joinpath d f) = stem_of_name f" "suffix (joinpath d f) = suffix_of_name f"
    "CHR ''/'' \<notin> set (stem_of_name f)" "CHR ''/'' \<notin> set (suffix_of_name f)"
  using assms stem_of_name_sub[of f] suffix_of_name_sub[of f]
  by (auto simp: stem_def suffix_def name_joinpath_filename is_filename_def)

lemma get_unique_filepath_total:
  assumes "is_filename f"
  shows "\<exists>p. get_unique_filepath fs d f = Some p"
  using next_free_total[OF stem_suffix_filename(3,4)[OF assms], of fs d 1]
  by (simp add: get_unique_filepath_def Let_def stem_suffix_filename(1,2)[OF assms])

lemma get_unique_filepath_fresh:
  "get_unique_filepath fs d f = Some p \<Longrightarrow> \<not> path_exists fs p"
  by (auto simp: get_unique_filepath_def Let_def split: if_splits dest: next_free_sound)

section \<open>The claims about the resolver\<close>

text \<open>
  C1. For a desired filename that is a single path component, the resolver returns
  \<^verbatim>\<open>directory / filename\<close> itself when that path does not exist. Otherwise it
  returns \<^verbatim>\<open>directory / "{stem}_{k}{extension}"\<close> for the least
  counter \<open>k \<ge> 1\<close> whose path does not exist, stem and extension being those of the
  desired filename. Whatever it returns does not exist; with \<^verbatim>\<open>a.jpg\<close> and \<^verbatim>\<open>a_1.jpg\<close>
  taken, \<^verbatim>\<open>a.jpg\<close> resolves to \<^verbatim>\<open>a_2.jpg\<close>.
\<close>

theorem get_unique_filepath_correct:
  assumes "is_filename f"
  shows "(\<not> path_exists fs (joinpath d f) \<longrightarrow> get_unique_filepath fs d f = Some (joinpath d f))
    \<and> (path_exists fs (joinpath d f) \<and> 1 \<le> k
         \<and> \<not> path_exists fs (joinpath d (stem_of_name f @ ''_'' @ str_nat k @ suffix_of_name f))
         \<and> (\<forall>j. 1 \<le> j \<and> j < k \<longrightarrow>
               path_exists fs (joinpath d (stem_of_name f @ ''_'' @ str_nat j @ suffix_of_name f)))
       \<longrightarrow> get_unique_filepath fs d f
             = Some (joinpath d (stem_of_name f @ ''_'' @ str_nat k @ suffix_of_name f)))
    \<and> (get_unique_filepath fs d f = Some p \<longrightarrow>
         \<not> path_exists fs p
         \<and> (p = joinpath d f
            \<or> path_exists fs (joinpath d f)
              \<and> (\<exists>n. 1 \<le> n
                    \<and> p = joinpath d (stem_of_name f @ ''_'' @ str_nat n @ suffix_of_name f)
                    \<and> (\<forall>j. 1 \<le> j \<and> j < n \<longrightarrow>
                          path_exists fs
                            (joinpath d (stem_of_name f @ ''_'' @ str_nat j @ suffix_of_name f))))))
    \<and> (path_exists fs (joinpath d ''a.jpg'') \<and> path_exists fs (joinpath d ''a_1.jpg'')
         \<and> \<not> path_exists fs (joinpath d ''a_2.jpg'')
       \<longrightarrow> get_unique_filepath fs d ''a.jpg'' = Some (joinpath d ''a_2.jpg''))"
proof (intro conjI impI)
  note ss = stem_suffix_filename(1,2)[OF assms]
  show "get_unique_filepath fs d f = Some (joinpath d f)" if "\<not> path_exists fs (joinpath d f)"
    using that by (simp add: get_unique_filepath_def)
  show "get_unique_filepath fs d f
      = Some (joinpath d (stem_of_name f @ ''_'' @ str_nat k @ suffix_of_name f))"
    if h: "path_exists fs (joinpath d f) \<and> 1 \<le> k
         \<and> \<not> path_exists fs (joinpath d (stem_of_name f @ ''_'' @ str_nat k @ suffix_of_name f))
         \<and> (\<forall>j. 1 \<le> j \<and> j < k \<longrightarrow>
               path_exists fs (joinpath d (stem_of_name f @ ''_'' @ str_nat j @ suffix_of_name f)))"
  proof -
    from h have "next_free fs d (stem_of_name f) (suffix_of_name f) 1
        = Some (joinpath d (stem_of_name f @ ''_'' @ str_nat k @ suffix_of_name f))"
      by (intro next_free_least) simp_all
    with h show ?thesis by (simp add: get_unique_filepath_def Let_def ss)
  qed
  show "\<not> path_exists fs p" if "get_unique_filepath fs d f = Some p"
    using that by (rule get_unique_filepath_fresh)
  show "p = joinpath d f
      \<or> path_exists fs (joinpath d f)
        \<and> (\<exists>n. 1 \<le> n
              \<and> p = joinpath d (stem_of_name f @ ''_'' @ str_nat n @ suffix_of_name f)
              \<and> (\<forall>j. 1 \<le> j \<and> j < n \<longrightarrow>
                    path_exists fs
                      (joinpath d (stem_of_name f @ ''_'' @ str_nat j @ suffix_of_name f))))"
    if g: "get_unique_filepath fs d f = Some p"
  proof (cases "path_exists fs (joinpath d f)")
    case False
    with g show ?thesis by (simp add: get_unique_filepath_def)
  next
    case True
    with g have "next_free fs d (stem_of_name f) (suffix_of_name f) 1 = Some p"
      by (simp add: get_unique_filepath_def Let_def ss)
    from next_free_sound[OF this] True show ?thesis by blast
  qed
  show "get_unique_filepath fs d ''a.jpg'' = Some (joinpath d ''a_2.jpg'')"
    if h: "path_exists fs (joinpath d ''a.jpg'') \<and> path_exists fs (joinpath d ''a_1.jpg'')
         \<and> \<not> path_exists fs (joinpath d ''a_2.jpg'')"
  proof -
    have fn: "is_filename ''a.jpg''" by (simp add: is_filename_def)
    have st: "stem_of_name ''a.jpg'' = ''a''" "suffix_of_name ''a.jpg'' = ''.jpg''"
      by (simp_all add: stem_of_name_def suffix_of_name_def rfind_def)
    have n1: "str_nat 1 = ''1''" and n2: "str_nat 2 = ''2''" by code_simp+
    have c1: "joinpath d (''a'' @ ''_'' @ str_nat 1 @ ''.jpg'') = joinpath d ''a_1.jpg''"
      unfolding n1 by simp
    have c2: "joinpath d (''a'' @ ''_'' @ str_nat 2 @ ''.jpg'') = joinpath d ''a_2.jpg''"
      unfolding n2 by simp
    have "next_free fs d ''a'' ''.jpg'' 1 = Some (joinpath d (''a'' @ ''_'' @ str_nat 2 @ ''.jpg''))"
    proof (rule next_free_least)
      show "\<not> path_exists fs (joinpath d (''a'' @ ''_'' @ str_nat 2 @ ''.jpg''))"
        unfolding c2 using h by blast
      show "(1::nat) \<le> 2" by simp
      show "\<forall>j. 1 \<le> j \<and> j < 2 \<longrightarrow> path_exists fs (joinpath d (''a'' @ ''_'' @ str_nat j @ ''.jpg''))"
      proof (intro allI impI)
        fix j :: nat assume "1 \<le> j \<and> j < 2"
        then have j: "j = 1" by simp
        show "path_exists fs (joinpath d (''a'' @ ''_'' @ str_nat j @ ''.jpg''))"
          unfolding j c1 using h by blast
      qed
    qed
    then have "next_free fs d ''a'' ''.jpg'' 1 = Some (joinpath d ''a_2.jpg'')"
      unfolding c2 .
    with h show ?thesis
      by (simp add: get_unique_filepath_def Let_def stem_suffix_filename(1,2)[OF fn] st)
  qed
qed

theorem get_unique_filepath_correct_witness:
  "is_filename ''a.jpg''
   \<and> get_unique_filepath
       [(parse_path ''dir'', Dir), (parse_path ''dir/a.jpg'', File ()), (parse_path ''dir/a_1.jpg'', File ())]
       (parse_path ''dir'') ''a.jpg''
     = Some (parse_path ''dir/a_2.jpg'')"
proof -
  let ?fs = "[(parse_path ''dir'', Dir), (parse_path ''dir/a.jpg'', File ()), (parse_path ''dir/a_1.jpg'', File ())]"
  have fn: "is_filename ''a.jpg''" by (simp add: is_filename_def)
  have e0: "path_exists ?fs (joinpath (parse_path ''dir'') ''a.jpg'')" by code_simp
  have e1: "path_exists ?fs (joinpath (parse_path ''dir'') ''a_1.jpg'')" by code_simp
  have e2: "\<not> path_exists ?fs (joinpath (parse_path ''dir'') ''a_2.jpg'')" by code_simp
  have j: "joinpath (parse_path ''dir'') ''a_2.jpg'' = parse_path ''dir/a_2.jpg''" by code_simp
  from get_unique_filepath_correct[OF fn, of ?fs "parse_path ''dir''"] e0 e1 e2
  have "get_unique_filepath ?fs (parse_path ''dir'') ''a.jpg'' = Some (joinpath (parse_path ''dir'') ''a_2.jpg'')"
    by blast
  with fn j show ?thesis by simp
qed

text \<open>
  C9. The resolver's loop has no bound on the counter. It returns as soon as some
  counter \<open>k \<ge> 1\<close> names a path that does not exist, and it runs forever when the desired
  path and every numbered path exist. A file system holds finitely many entries, so for
  a filename that is a single path component some counter is always free.
\<close>

theorem get_unique_filepath_terminates:
  "((\<exists>k. 1 \<le> k \<and> \<not> path_exists fs
        (joinpath d (stem (joinpath d f) @ ''_'' @ str_nat k @ suffix (joinpath d f))))
      \<longrightarrow> (\<exists>p. get_unique_filepath fs d f = Some p))
   \<and> (path_exists fs (joinpath d f)
        \<and> (\<forall>k. 1 \<le> k \<longrightarrow> path_exists fs
              (joinpath d (stem (joinpath d f) @ ''_'' @ str_nat k @ suffix (joinpath d f))))
      \<longrightarrow> get_unique_filepath fs d f = None)
   \<and> (is_filename f \<longrightarrow> (\<exists>p. get_unique_filepath fs d f = Some p))"
proof (intro conjI impI)
  assume "\<exists>k. 1 \<le> k \<and> \<not> path_exists fs
        (joinpath d (stem (joinpath d f) @ ''_'' @ str_nat k @ suffix (joinpath d f)))"
  then obtain k where "1 \<le> k" "\<not> path_exists fs
        (joinpath d (stem (joinpath d f) @ ''_'' @ str_nat k @ suffix (joinpath d f)))" by blast
  from next_free_exists_least[OF this] show "\<exists>p. get_unique_filepath fs d f = Some p"
    by (simp add: get_unique_filepath_def Let_def)
next
  assume h: "path_exists fs (joinpath d f)
        \<and> (\<forall>k. 1 \<le> k \<longrightarrow> path_exists fs
              (joinpath d (stem (joinpath d f) @ ''_'' @ str_nat k @ suffix (joinpath d f))))"
  have "next_free fs d (stem (joinpath d f)) (suffix (joinpath d f)) 1 = None"
  proof (cases "next_free fs d (stem (joinpath d f)) (suffix (joinpath d f)) 1")
    case None
    then show ?thesis .
  next
    case (Some p)
    from next_free_sound[OF Some] h show ?thesis by blast
  qed
  with h show "get_unique_filepath fs d f = None" by (simp add: get_unique_filepath_def Let_def)
next
  assume "is_filename f"
  then show "\<exists>p. get_unique_filepath fs d f = Some p" by (rule get_unique_filepath_total)
qed

theorem get_unique_filepath_terminates_witness:
  "(\<exists>k. 1 \<le> k \<and> \<not> path_exists [(parse_path ''dir/a.jpg'', File ()), (parse_path ''dir/a_1.jpg'', File ())]
        (joinpath (parse_path ''dir'')
           (stem (joinpath (parse_path ''dir'') ''a.jpg'') @ ''_'' @ str_nat k
              @ suffix (joinpath (parse_path ''dir'') ''a.jpg''))))
   \<and> is_filename ''a.jpg''
   \<and> (\<exists>p. get_unique_filepath [(parse_path ''dir/a.jpg'', File ()), (parse_path ''dir/a_1.jpg'', File ())]
             (parse_path ''dir'') ''a.jpg'' = Some p)"
proof -
  let ?fs = "[(parse_path ''dir/a.jpg'', File ()), (parse_path ''dir/a_1.jpg'', File ())]"
  have "\<not> path_exists ?fs
        (joinpath (parse_path ''dir'')
           (stem (joinpath (parse_path ''dir'') ''a.jpg'') @ ''_'' @ str_nat 2
              @ suffix (joinpath (parse_path ''dir'') ''a.jpg'')))" by code_simp
  then have ex: "\<exists>k. 1 \<le> k \<and> \<not> path_exists ?fs
        (joinpath (parse_path ''dir'')
           (stem (joinpath (parse_path ''dir'') ''a.jpg'') @ ''_'' @ str_nat k
              @ suffix (joinpath (parse_path ''dir'') ''a.jpg'')))"
    by (intro exI[of _ "2::nat"]) simp
  have fn: "is_filename ''a.jpg''" by (simp add: is_filename_def)
  from get_unique_filepath_terminates[of ?fs "parse_path ''dir''" "''a.jpg''"] ex
  have "\<exists>p. get_unique_filepath ?fs (parse_path ''dir'') ''a.jpg'' = Some p" by blast
  with ex fn show ?thesis by blast
qed

section \<open>Facts about stripping\<close>

lemma py_strip_decomp:
  "\<exists>pre post. s = pre @ py_strip cs s @ post \<and> set pre \<subseteq> set cs \<and> set post \<subseteq> set cs"
proof -
  let ?P = "\<lambda>c. c \<in> set cs"
  let ?s1 = "dropWhile ?P s"
  have a: "s = takeWhile ?P s @ ?s1" by simp
  have "rev (dropWhile ?P (rev ?s1)) @ rev (takeWhile ?P (rev ?s1)) = ?s1"
    by (simp only: rev_append[symmetric] takeWhile_dropWhile_id rev_rev_ident)
  then have b: "?s1 = py_strip cs s @ rev (takeWhile ?P (rev ?s1))"
    unfolding py_strip_def by (rule sym)
  have "s = takeWhile ?P s @ py_strip cs s @ rev (takeWhile ?P (rev ?s1))"
    using a b by metis
  moreover have "set (takeWhile ?P s) \<subseteq> set cs" by (auto dest: set_takeWhileD)
  moreover have "set (rev (takeWhile ?P (rev ?s1))) \<subseteq> set cs" by (auto dest: set_takeWhileD)
  ultimately show ?thesis by blast
qed

lemma py_strip_ends:
  assumes "py_strip cs s \<noteq> []"
  shows "hd (py_strip cs s) \<notin> set cs" "last (py_strip cs s) \<notin> set cs"
proof -
  let ?P = "\<lambda>c. c \<in> set cs"
  let ?s1 = "dropWhile ?P s"
  let ?d = "dropWhile ?P (rev ?s1)"
  from assms have d: "?d \<noteq> []" by (simp add: py_strip_def)
  have s1: "?s1 \<noteq> []"
  proof
    assume e: "?s1 = []"
    have "?d = []" unfolding e by simp
    with d show False by contradiction
  qed
  have "last (py_strip cs s) = hd ?d" using d by (simp add: py_strip_def last_rev)
  moreover have "\<not> ?P (hd ?d)" using d by (rule hd_dropWhile)
  ultimately show "last (py_strip cs s) \<notin> set cs" by simp
  have "rev ?s1 = takeWhile ?P (rev ?s1) @ ?d" by simp
  then have "last (rev ?s1) = last ?d" using d by (metis last_appendR)
  then have "hd ?s1 = last ?d" using s1 by (simp add: last_rev)
  moreover have "hd (py_strip cs s) = last ?d" using d by (simp add: py_strip_def hd_rev)
  moreover have "\<not> ?P (hd ?s1)" using s1 by (rule hd_dropWhile)
  ultimately show "hd (py_strip cs s) \<notin> set cs" by simp
qed

lemma dropWhile_none: "\<forall>x\<in>set xs. \<not> P x \<Longrightarrow> dropWhile P xs = xs"
  by (cases xs) auto

lemma py_strip_id: "set s \<inter> set cs = {} \<Longrightarrow> py_strip cs s = s"
proof -
  assume a: "set s \<inter> set cs = {}"
  then have n: "\<forall>x\<in>set s. \<not> x \<in> set cs" by blast
  then have n': "\<forall>x\<in>set (rev s). \<not> x \<in> set cs" by simp
  show ?thesis unfolding py_strip_def dropWhile_none[of s, OF n] dropWhile_none[of "rev s", OF n']
    by simp
qed


lemma clean_decomp:
  "\<exists>pre post. raw = pre @ clean raw @ post
      \<and> set pre \<subseteq> {CHR 0x22, CHR 0x27} \<and> set post \<subseteq> {CHR 0x22, CHR 0x27}"
proof -
  obtain a1 b1 where 1: "raw = a1 @ py_strip [CHR 0x22] raw @ b1"
    and a1: "set a1 \<subseteq> set [CHR 0x22]" and b1: "set b1 \<subseteq> set [CHR 0x22]"
    using py_strip_decomp[of raw "[CHR 0x22]"] by blast
  obtain a2 b2 where 2: "py_strip [CHR 0x22] raw = a2 @ clean raw @ b2"
    and a2: "set a2 \<subseteq> set [CHR 0x27]" and b2: "set b2 \<subseteq> set [CHR 0x27]"
    using py_strip_decomp[of "py_strip [CHR 0x22] raw" "[CHR 0x27]"] unfolding clean_def by blast
  have "raw = (a1 @ a2) @ clean raw @ (b2 @ b1)"
    by (subst 1, subst 2) simp
  moreover have "set (a1 @ a2) \<subseteq> {CHR 0x22, CHR 0x27}" using a1 a2 by auto
  moreover have "set (b2 @ b1) \<subseteq> {CHR 0x22, CHR 0x27}" using b1 b2 by auto
  ultimately show ?thesis by blast
qed

lemma py_strip_exact:
  assumes a: "set a \<subseteq> set cs" and b: "set b \<subseteq> set cs"
    and m: "m \<noteq> []" and h: "hd m \<notin> set cs" and l: "last m \<notin> set cs"
  shows "py_strip cs (a @ m @ b) = m"
proof -
  let ?P = "\<lambda>c. c \<in> set cs"
  from m obtain x m' where mx: "m = x # m'" by (cases m) auto
  with h have nx: "\<not> ?P x" by simp
  have "dropWhile ?P (a @ m @ b) = dropWhile ?P (m @ b)"
    using a by (intro dropWhile_append2) auto
  also have "\<dots> = m @ b" using nx unfolding mx by simp
  finally have 1: "dropWhile ?P (a @ m @ b) = m @ b" .
  from m have "rev m \<noteq> []" by simp
  then obtain y r where ry: "rev m = y # r" by (cases "rev m") auto
  have "hd (rev m) = last m" using m by (simp add: hd_rev)
  with l ry have ny: "\<not> ?P y" by simp
  have "dropWhile ?P (rev b @ rev m) = dropWhile ?P (rev m)"
    using b by (intro dropWhile_append2) auto
  also have "\<dots> = rev m" using ny unfolding ry by simp
  finally have 2: "dropWhile ?P (rev (m @ b)) = rev m" by simp
  show ?thesis unfolding py_strip_def 1 2 by simp
qed

lemma clean_exact:
  assumes a: "set a \<subseteq> {CHR 0x22}" and b: "set b \<subseteq> {CHR 0x22}"
    and a': "set a' \<subseteq> {CHR 0x27}" and b': "set b' \<subseteq> {CHR 0x27}"
    and s: "s \<noteq> []" and h: "hd s \<notin> {CHR 0x22, CHR 0x27}" and l: "last s \<notin> {CHR 0x22, CHR 0x27}"
  shows "clean (a @ a' @ s @ b' @ b) = s"
proof -
  let ?m = "a' @ s @ b'"
  have m: "?m \<noteq> []" using s by simp
  have hm: "hd ?m \<notin> set [CHR 0x22]"
  proof (cases a')
    case Nil
    then show ?thesis using s h by simp
  next
    case (Cons x xs)
    with a' have "x = CHR 0x27" by auto
    with Cons show ?thesis by simp
  qed
  have lm: "last ?m \<notin> set [CHR 0x22]"
  proof (cases "b' = []")
    case True
    then show ?thesis using s l by simp
  next
    case False
    then have "last ?m = last b'" by simp
    moreover have "last b' \<in> set b'" using False by simp
    ultimately show ?thesis using b' by auto
  qed
  have sa: "set a \<subseteq> set [CHR 0x22]" and sb: "set b \<subseteq> set [CHR 0x22]" using a b by simp_all
  have 1: "py_strip [CHR 0x22] (a @ ?m @ b) = ?m"
    by (rule py_strip_exact[OF sa sb m hm lm])
  have sa': "set a' \<subseteq> set [CHR 0x27]" and sb': "set b' \<subseteq> set [CHR 0x27]"
    using a' b' by simp_all
  have hs: "hd s \<notin> set [CHR 0x27]" and ls: "last s \<notin> set [CHR 0x27]" using h l by simp_all
  have 2: "py_strip [CHR 0x27] ?m = s"
    by (rule py_strip_exact[OF sa' sb' s hs ls])
  have "clean (a @ ?m @ b) = s" unfolding clean_def 1 2 ..
  then show ?thesis by simp
qed

lemma clean_layers:
  "\<exists>a1 a2 b2 b1. raw = a1 @ a2 @ clean raw @ b2 @ b1
      \<and> set a1 \<subseteq> {CHR 0x22} \<and> set b1 \<subseteq> {CHR 0x22}
      \<and> set a2 \<subseteq> {CHR 0x27} \<and> set b2 \<subseteq> {CHR 0x27}
      \<and> (a2 @ clean raw @ b2 \<noteq> [] \<longrightarrow>
            hd (a2 @ clean raw @ b2) \<noteq> CHR 0x22 \<and> last (a2 @ clean raw @ b2) \<noteq> CHR 0x22)
      \<and> (clean raw \<noteq> [] \<longrightarrow> hd (clean raw) \<noteq> CHR 0x27 \<and> last (clean raw) \<noteq> CHR 0x27)"
proof -
  let ?m = "py_strip [CHR 0x22] raw"
  obtain a1 b1 where 1: "raw = a1 @ ?m @ b1"
    and a1: "set a1 \<subseteq> set [CHR 0x22]" and b1: "set b1 \<subseteq> set [CHR 0x22]"
    using py_strip_decomp[of raw "[CHR 0x22]"] by blast
  obtain a2 b2 where 2: "?m = a2 @ clean raw @ b2"
    and a2: "set a2 \<subseteq> set [CHR 0x27]" and b2: "set b2 \<subseteq> set [CHR 0x27]"
    using py_strip_decomp[of ?m "[CHR 0x27]"] unfolding clean_def by blast
  have r: "raw = a1 @ a2 @ clean raw @ b2 @ b1"
    by (subst 1, subst 2) simp
  have m: "a2 @ clean raw @ b2 \<noteq> [] \<longrightarrow>
            hd (a2 @ clean raw @ b2) \<noteq> CHR 0x22 \<and> last (a2 @ clean raw @ b2) \<noteq> CHR 0x22"
    using py_strip_ends[of "[CHR 0x22]" raw] unfolding 2[symmetric] by simp
  have c: "clean raw \<noteq> [] \<longrightarrow> hd (clean raw) \<noteq> CHR 0x27 \<and> last (clean raw) \<noteq> CHR 0x27"
    using py_strip_ends[of "[CHR 0x27]" ?m] unfolding clean_def by simp
  from a1 b1 a2 b2 have s: "set a1 \<subseteq> {CHR 0x22}" "set b1 \<subseteq> {CHR 0x22}"
    "set a2 \<subseteq> {CHR 0x27}" "set b2 \<subseteq> {CHR 0x27}" by simp_all
  from r s m c show ?thesis by blast
qed

lemma is_file_not_dir: "is_file fs p \<Longrightarrow> \<not> is_dir fs p"
  by (auto simp: is_file_def is_dir_def split: option.splits node.splits)

section \<open>The claims about collection\<close>

text \<open>
  C7, as amended. Each raw string is stripped of every leading and trailing double
  quote and then of every leading and trailing single quote, and of nothing else. The
  string is a run of double quotes, a run of single quotes, the stripped string, a run
  of single quotes and a run of double quotes, where what lies between the runs of
  double quotes neither starts nor ends with a double quote and the stripped string
  neither starts nor ends with a single quote; this determines the stripped string. So
  quotes that surround a string without a quote at either end are removed, and a string
  without quote characters (blanks included) is left as it is. A string that is empty
  after the stripping is skipped without a diagnostic and without a candidate. What is
  done with any other string depends on the stripped string alone, which is looked up
  as the path it spells: as a directory, as a regular file, or as neither.
\<close>

theorem clean_strips_quotes:
  "(\<exists>a1 a2 b2 b1. raw = a1 @ a2 @ clean raw @ b2 @ b1
       \<and> set a1 \<subseteq> {CHR 0x22} \<and> set b1 \<subseteq> {CHR 0x22}
       \<and> set a2 \<subseteq> {CHR 0x27} \<and> set b2 \<subseteq> {CHR 0x27}
       \<and> (a2 @ clean raw @ b2 \<noteq> [] \<longrightarrow>
             hd (a2 @ clean raw @ b2) \<noteq> CHR 0x22 \<and> last (a2 @ clean raw @ b2) \<noteq> CHR 0x22)
       \<and> (clean raw \<noteq> [] \<longrightarrow> hd (clean raw) \<noteq> CHR 0x27 \<and> last (clean raw) \<noteq> CHR 0x27))
   \<and> (set a \<subseteq> {CHR 0x22} \<and> set b \<subseteq> {CHR 0x22} \<and> set a' \<subseteq> {CHR 0x27} \<and> set b' \<subseteq> {CHR 0x27}
        \<and> s \<noteq> [] \<and> hd s \<notin> {CHR 0x22, CHR 0x27} \<and> last s \<notin> {CHR 0x22, CHR 0x27} \<longrightarrow>
        clean (a @ a' @ s @ b' @ b) = s)
   \<and> (set raw \<inter> {CHR 0x22, CHR 0x27} = {} \<longrightarrow> clean raw = raw)
   \<and> (clean raw = [] \<longrightarrow>
        collect stdout fs (raw # rest) target_files out = collect stdout fs rest target_files out)
   \<and> (clean raw = clean raw' \<longrightarrow>
        collect stdout fs (raw # rest) target_files out
          = collect stdout fs (raw' # rest) target_files out)
   \<and> (clean raw \<noteq> [] \<and> is_dir fs (parse_path (clean raw)) \<longrightarrow>
        collect stdout fs (raw # rest) target_files out
          = collect stdout fs rest
              (target_files
                 @ filter (\<lambda>child. is_file fs child \<and> supported child)
                     (iterdir fs (parse_path (clean raw))))
              out)
   \<and> (clean raw \<noteq> [] \<and> is_file fs (parse_path (clean raw))
        \<and> supported (parse_path (clean raw)) \<longrightarrow>
        collect stdout fs (raw # rest) target_files out
          = collect stdout fs rest (target_files @ [parse_path (clean raw)]) out)
   \<and> (clean raw \<noteq> [] \<and> \<not> is_dir fs (parse_path (clean raw))
        \<and> \<not> is_file fs (parse_path (clean raw)) \<and> stdout out (Ignored (clean raw)) = None \<longrightarrow>
        collect stdout fs (raw # rest) target_files out
          = collect stdout fs rest target_files (out @ [Ignored (clean raw)]))"
proof (intro conjI impI)
  show "\<exists>a1 a2 b2 b1. raw = a1 @ a2 @ clean raw @ b2 @ b1
       \<and> set a1 \<subseteq> {CHR 0x22} \<and> set b1 \<subseteq> {CHR 0x22}
       \<and> set a2 \<subseteq> {CHR 0x27} \<and> set b2 \<subseteq> {CHR 0x27}
       \<and> (a2 @ clean raw @ b2 \<noteq> [] \<longrightarrow>
             hd (a2 @ clean raw @ b2) \<noteq> CHR 0x22 \<and> last (a2 @ clean raw @ b2) \<noteq> CHR 0x22)
       \<and> (clean raw \<noteq> [] \<longrightarrow> hd (clean raw) \<noteq> CHR 0x27 \<and> last (clean raw) \<noteq> CHR 0x27)"
    by (rule clean_layers)
  show "clean (a @ a' @ s @ b' @ b) = s"
    if "set a \<subseteq> {CHR 0x22} \<and> set b \<subseteq> {CHR 0x22} \<and> set a' \<subseteq> {CHR 0x27} \<and> set b' \<subseteq> {CHR 0x27}
        \<and> s \<noteq> [] \<and> hd s \<notin> {CHR 0x22, CHR 0x27} \<and> last s \<notin> {CHR 0x22, CHR 0x27}"
  proof -
    from that have 1: "set a \<subseteq> {CHR 0x22}" and 2: "set b \<subseteq> {CHR 0x22}"
      and 3: "set a' \<subseteq> {CHR 0x27}" and 4: "set b' \<subseteq> {CHR 0x27}" and 5: "s \<noteq> []"
      and 6: "hd s \<notin> {CHR 0x22, CHR 0x27}" and 7: "last s \<notin> {CHR 0x22, CHR 0x27}"
      by blast+
    show ?thesis by (rule clean_exact[OF 1 2 3 4 5 6 7])
  qed
  show "clean raw = raw" if h: "set raw \<inter> {CHR 0x22, CHR 0x27} = {}"
  proof -
    from h have 1: "set raw \<inter> set [CHR 0x22] = {}" and 2: "set raw \<inter> set [CHR 0x27] = {}"
      by auto
    show ?thesis unfolding clean_def py_strip_id[OF 1] py_strip_id[OF 2] ..
  qed
  show "collect stdout fs (raw # rest) target_files out = collect stdout fs rest target_files out"
    if "clean raw = []"
    using that by simp
  show "collect stdout fs (raw # rest) target_files out
          = collect stdout fs (raw' # rest) target_files out"
    if "clean raw = clean raw'"
    using that by (simp add: Let_def)
  show "collect stdout fs (raw # rest) target_files out
          = collect stdout fs rest
              (target_files
                 @ filter (\<lambda>child. is_file fs child \<and> supported child)
                     (iterdir fs (parse_path (clean raw))))
              out"
    if "clean raw \<noteq> [] \<and> is_dir fs (parse_path (clean raw))"
    using that by (simp add: Let_def)
  show "collect stdout fs (raw # rest) target_files out
          = collect stdout fs rest (target_files @ [parse_path (clean raw)]) out"
    if "clean raw \<noteq> [] \<and> is_file fs (parse_path (clean raw))
        \<and> supported (parse_path (clean raw))"
    using that is_file_not_dir[of fs "parse_path (clean raw)"] by (simp add: Let_def)
  show "collect stdout fs (raw # rest) target_files out
          = collect stdout fs rest target_files (out @ [Ignored (clean raw)])"
    if "clean raw \<noteq> [] \<and> \<not> is_dir fs (parse_path (clean raw))
        \<and> \<not> is_file fs (parse_path (clean raw)) \<and> stdout out (Ignored (clean raw)) = None"
    using that by (simp add: Let_def)
qed

theorem clean_strips_quotes_witness:
  "clean ([CHR 0x22] @ [CHR 0x27] @ ''my photos/a b.png'' @ [CHR 0x27] @ [CHR 0x22])
     = ''my photos/a b.png''
   \<and> clean [CHR 0x22, CHR 0x27, CHR 0x27, CHR 0x22] = []
   \<and> collect quiet ([] :: unit fs) [[CHR 0x22, CHR 0x27, CHR 0x27, CHR 0x22], ''nowhere.png''] [] []
       = collect quiet ([] :: unit fs) [''nowhere.png''] [] []
   \<and> set '' a.jpg'' \<inter> {CHR 0x22, CHR 0x27} = {} \<and> clean '' a.jpg'' = '' a.jpg''"
proof -
  note t0 = clean_strips_quotes[where a = "[CHR 0x22]" and a' = "[CHR 0x27]"
      and s = "''my photos/a b.png''" and b' = "[CHR 0x27]" and b = "[CHR 0x22]"]
  have h: "set [CHR 0x22] \<subseteq> {CHR 0x22} \<and> set [CHR 0x22] \<subseteq> {CHR 0x22}
       \<and> set [CHR 0x27] \<subseteq> {CHR 0x27} \<and> set [CHR 0x27] \<subseteq> {CHR 0x27}
       \<and> ''my photos/a b.png'' \<noteq> [] \<and> hd ''my photos/a b.png'' \<notin> {CHR 0x22, CHR 0x27}
       \<and> last ''my photos/a b.png'' \<notin> {CHR 0x22, CHR 0x27}" by simp
  have 0: "clean ([CHR 0x22] @ [CHR 0x27] @ ''my photos/a b.png'' @ [CHR 0x27] @ [CHR 0x22])
     = ''my photos/a b.png''"
    by (rule t0[THEN conjunct2, THEN conjunct1, rule_format, OF h])
  have e: "clean [CHR 0x22, CHR 0x27, CHR 0x27, CHR 0x22] = []" by code_simp
  have d: "set '' a.jpg'' \<inter> {CHR 0x22, CHR 0x27} = {}" by simp
  note t1 = clean_strips_quotes[where raw = "[CHR 0x22, CHR 0x27, CHR 0x27, CHR 0x22]"
      and stdout = quiet and fs = "[] :: unit fs" and rest = "[''nowhere.png'']"
      and target_files = "[]" and out = "[]"]
  have 1: "collect quiet ([] :: unit fs) [[CHR 0x22, CHR 0x27, CHR 0x27, CHR 0x22], ''nowhere.png''] [] []
       = collect quiet ([] :: unit fs) [''nowhere.png''] [] []"
    by (rule t1[THEN conjunct2, THEN conjunct2, THEN conjunct2, THEN conjunct1, rule_format, OF e])
  note t2 = clean_strips_quotes[where raw = "'' a.jpg''"]
  have 2: "clean '' a.jpg'' = '' a.jpg''"
    by (rule t2[THEN conjunct2, THEN conjunct2, THEN conjunct1, rule_format, OF d])
  show ?thesis
    by (intro conjI) (rule 0, rule e, rule 1, rule d, rule 2)
qed

text \<open>
  The claim as stated fails: blanks are not trimmed, so a string of one blank is not
  empty after the stripping and draws a diagnostic, and double quotes enclosed in
  single quotes stay.
\<close>

theorem clean_keeps_whitespace_counterexample:
  "clean '' a.jpg '' = '' a.jpg ''
   \<and> collect quiet ([] :: unit fs) ['' ''] [] [] = ([], [Ignored '' ''], None)
   \<and> clean [CHR 0x27, CHR 0x22, CHR ''a'', CHR 0x22, CHR 0x27] = [CHR 0x22, CHR ''a'', CHR 0x22]"
  by code_simp




section \<open>The claim about the output format\<close>

text \<open>
  C10. Exactly the mode strings \<^verbatim>\<open>webp\<close> and \<^verbatim>\<open>w\<close> select WebP output; every other
  string, such as \<^verbatim>\<open>jpg\<close>, \<^verbatim>\<open>jpeg\<close>, \<^verbatim>\<open>WEBP\<close> or an unknown word, selects JPEG: the
  encoder format JPEG, the extension \<^verbatim>\<open>.jpg\<close> and the folder \<^verbatim>\<open>jpg\<close>.
\<close>

theorem settings_fallback:
  "settings mode_type
     = (if mode_type = ''webp'' \<or> mode_type = ''w'' then (''WebP'', ''.webp'', ''webp'')
        else (''JPEG'', ''.jpg'', ''jpg''))
   \<and> (fst (settings mode_type) = ''WebP'') = (mode_type = ''webp'' \<or> mode_type = ''w'')
   \<and> save_arguments (fst (settings mode_type))
       = (if mode_type = ''webp'' \<or> mode_type = ''w'' then SaveArgs ''WebP'' 80 (Some 6)
          else SaveArgs ''JPEG'' 80 None)
   \<and> settings ''jpg'' = (''JPEG'', ''.jpg'', ''jpg'')
   \<and> settings ''jpeg'' = (''JPEG'', ''.jpg'', ''jpg'')
   \<and> settings ''WEBP'' = (''JPEG'', ''.jpg'', ''jpg'')
   \<and> settings ''tiff'' = (''JPEG'', ''.jpg'', ''jpg'')"
  by (simp add: settings_def save_arguments_def)

theorem settings_fallback_witness:
  "settings ''Webp'' = (''JPEG'', ''.jpg'', ''jpg'')
   \<and> save_arguments (fst (settings ''Webp'')) = SaveArgs ''JPEG'' 80 None
   \<and> settings ''w'' = (''WebP'', ''.webp'', ''webp'')
   \<and> save_arguments (fst (settings ''w'')) = SaveArgs ''WebP'' 80 (Some 6)"
proof -
  note a = settings_fallback[of "''Webp''"]
  note b = settings_fallback[of "''w''"]
  have 1: "settings ''Webp'' = (''JPEG'', ''.jpg'', ''jpg'')"
    using a[THEN conjunct1] by simp
  have 2: "save_arguments (fst (settings ''Webp'')) = SaveArgs ''JPEG'' 80 None"
    using a[THEN conjunct2, THEN conjunct2, THEN conjunct1] by simp
  have 3: "settings ''w'' = (''WebP'', ''.webp'', ''webp'')"
    using b[THEN conjunct1] by simp
  have 4: "save_arguments (fst (settings ''w'')) = SaveArgs ''WebP'' 80 (Some 6)"
    using b[THEN conjunct2, THEN conjunct2, THEN conjunct1] by simp
  show ?thesis by (intro conjI) (rule 1, rule 2, rule 3, rule 4)
qed

section \<open>Facts about the file system operations\<close>

lemma map_of_create:
  "map_of (create fs p n) q =
     (case map_of fs q of
        None \<Rightarrow> if q = p then Some n else None
      | Some (Dangling t) \<Rightarrow> if t = p then Some n else Some (Dangling t)
      | Some x \<Rightarrow> Some x)"
proof -
  let ?g = "\<lambda>x. case x of Dangling t \<Rightarrow> if t = p then n else x | _ \<Rightarrow> x"
  have m: "map_of (map (\<lambda>(q, x). (q, ?g x)) fs) q = map_option ?g (map_of fs q)"
    by (simp add: map_of_map)
  have "map_of (create fs p n) q
      = (case map_option ?g (map_of fs q) of None \<Rightarrow> map_of [(p, n)] q | Some v \<Rightarrow> Some v)"
    unfolding create_def map_of_append map_add_def m by (simp split: option.splits)
  also have "\<dots> = (case map_of fs q of
        None \<Rightarrow> if q = p then Some n else None
      | Some (Dangling t) \<Rightarrow> if t = p then Some n else Some (Dangling t)
      | Some x \<Rightarrow> Some x)"
  proof (cases "map_of fs q")
    case None
    then show ?thesis by simp
  next
    case (Some x)
    then show ?thesis by (cases x) simp_all
  qed
  finally show ?thesis .
qed

lemma map_of_overwrite:
  "map_of (map (\<lambda>(q, n). if q = p then (q, File c) else (q, n)) fs) q =
     (if q = p then map_option (\<lambda>n. File c) (map_of fs p) else map_of fs q)"
  by (induction fs) auto





lemma map_of_append_fresh:
  "map_of fs p = None \<Longrightarrow> map_of (fs @ [(p, n)]) q = (if q = p then Some n else map_of fs q)"
  by (simp add: map_of_append map_add_def split: option.splits)

lemma mkdir_exist_ok_Inr:
  assumes "mkdir_exist_ok fs p = Inr fs1"
  shows "(fs1 = fs \<and> map_of fs p = Some Dir) \<or> (fs1 = create fs p Dir \<and> map_of fs p = None)"
  using assms by (auto simp: mkdir_exist_ok_def split: option.splits node.splits)


lemma image_open_mkdir:
  assumes "mkdir_exist_ok fs p = Inr fs1"
  shows "(image_open pil fs1 q = Inr img) = (image_open pil fs q = Inr img)"
  using mkdir_exist_ok_Inr[OF assms]
proof (elim disjE conjE)
  assume "fs1 = fs"
  then show ?thesis by simp
next
  assume a: "fs1 = create fs p Dir" and b: "map_of fs p = None"
  show ?thesis unfolding a image_open_def map_of_create using b
    by (auto split: option.splits node.splits)
qed


lemma open_for_writing_not_dir: "open_for_writing fs p = None \<Longrightarrow> map_of fs p \<noteq> Some Dir"
  by (auto simp: open_for_writing_def)

lemma write_file_self:
  assumes "map_of fs p \<noteq> Some Dir"
  shows "map_of (write_file fs p c) p = Some (File c)"
proof (cases "map_of fs p")
  case None
  then show ?thesis by (simp add: write_file_def map_of_create)
next
  case (Some n)
  with assms show ?thesis
    by (cases n) (simp_all add: write_file_def map_of_create map_of_overwrite)
qed

lemma img_save_None:
  assumes "img_save pil fs p args img = (fs', None)"
  shows "\<exists>c. pil_save pil args img = Inr c \<and> fs' = write_file fs p c
            \<and> open_for_writing fs p = None"
  using assms
  by (auto simp: img_save_def split: option.splits sum.splits prod.splits if_splits)


section \<open>Facts about one conversion\<close>

lemma process_one_cases:
  assumes "process_one pil mw cfg fs ip = Some (fs', r)"
  shows "(\<exists>e. mkdir_exist_ok fs (joinpath (parent ip) (snd (snd cfg))) = Inl e \<and> fs' = fs \<and> r = Inl e)
    \<or> (\<exists>fs1. mkdir_exist_ok fs (joinpath (parent ip) (snd (snd cfg))) = Inr fs1 \<and>
         ((\<exists>e. fs' = fs1 \<and> r = Inl e)
          \<or> (\<exists>img0 img1 img2 op res.
                image_open pil fs1 ip = Inr img0 \<and> convert pil img0 ''RGB'' = Inr img1
                \<and> resize_step pil mw img1 = Inr img2
                \<and> get_unique_filepath fs1 (joinpath (parent ip) (snd (snd cfg)))
                     (stem ip @ fst (snd cfg)) = Some op
                \<and> img_save pil fs1 op (save_arguments (fst cfg)) img2 = (fs', res)
                \<and> r = (case res of None \<Rightarrow> Inr op | Some e \<Rightarrow> Inl e))))"
proof (cases "mkdir_exist_ok fs (joinpath (parent ip) (snd (snd cfg)))")
  case (Inl e)
  with assms show ?thesis by (auto simp: process_one_def Let_def)
next
  case mk: (Inr fs1)
  show ?thesis
  proof (cases "image_open pil fs1 ip")
    case (Inl e)
    with assms mk show ?thesis by (auto simp: process_one_def Let_def)
  next
    case op: (Inr img0)
    show ?thesis
    proof (cases "convert pil img0 ''RGB''")
      case (Inl e)
      with assms mk op show ?thesis by (auto simp: process_one_def Let_def)
    next
      case cv: (Inr img1)
      show ?thesis
      proof (cases "resize_step pil mw img1")
        case (Inl e)
        with assms mk op cv show ?thesis by (auto simp: process_one_def Let_def)
      next
        case rs: (Inr img2)
        show ?thesis
        proof (cases "get_unique_filepath fs1 (joinpath (parent ip) (snd (snd cfg)))
                     (stem ip @ fst (snd cfg))")
          case None
          with assms mk op cv rs show ?thesis by (auto simp: process_one_def Let_def)
        next
          case gu: (Some outp)
          obtain fs2 res where sv: "img_save pil fs1 outp (save_arguments (fst cfg)) img2 = (fs2, res)"
            by (cases "img_save pil fs1 outp (save_arguments (fst cfg)) img2") blast
          have "fs' = fs2 \<and> r = (case res of None \<Rightarrow> Inr outp | Some e \<Rightarrow> Inl e)"
            using assms mk op cv rs gu sv by (cases res) (auto simp: process_one_def Let_def)
          with mk op cv rs gu sv show ?thesis by blast
        qed
      qed
    qed
  qed
qed

lemma out_filename:
  assumes "wf_path ip"
  shows "is_filename (stem ip @ fst (snd (settings m)))"
proof -
  have "CHR ''/'' \<notin> set (name ip)"
  proof (cases "parts ip = []")
    case True
    then show ?thesis by (simp add: name_def)
  next
    case False
    then have "last (parts ip) \<in> set (parts ip)" by simp
    with assms have "is_filename (last (parts ip))" by (simp add: wf_path_def list_all_iff)
    with False show ?thesis by (simp add: name_def is_filename_def)
  qed
  with stem_of_name_sub[of "name ip"] have "CHR ''/'' \<notin> set (stem ip)" by (auto simp: stem_def)
  then show ?thesis by (auto simp: is_filename_def settings_def)
qed



lemma rfind_ext:
  assumes "CHR ''.'' \<notin> set e"
  shows "rfind CHR ''.'' (s @ CHR ''.'' # e) = int (length s)"
proof -
  have "takeWhile (\<lambda>x. x \<noteq> CHR ''.'') (rev e @ CHR ''.'' # rev s) = rev e"
    using assms by (subst takeWhile_append2) auto
  then show ?thesis by (simp add: rfind_def)
qed

lemma stem_suffix_ext:
  assumes "CHR ''.'' \<notin> set e" "e \<noteq> []" "s \<noteq> []"
  shows "stem_of_name (s @ CHR ''.'' # e) = s" "suffix_of_name (s @ CHR ''.'' # e) = CHR ''.'' # e"
  using assms by (simp_all add: stem_of_name_def suffix_of_name_def rfind_ext)

lemma stem_of_name_nonempty: "n \<noteq> [] \<Longrightarrow> stem_of_name n \<noteq> []"
  by (auto simp: stem_of_name_def Let_def)

lemma settings_ext:
  "\<exists>e. fst (snd (settings m)) = CHR ''.'' # e \<and> CHR ''.'' \<notin> set e \<and> e \<noteq> []"
  by (simp add: settings_def)

lemma parent_joinpath_filename_id: "is_filename f \<Longrightarrow> parent (joinpath d f) = d"
  by (simp add: parent_joinpath_filename)

lemma get_unique_filepath_shape:
  assumes "is_filename f" "get_unique_filepath fs d f = Some p"
  shows "parent p = d \<and> (name p = f \<or> (\<exists>k. 1 \<le> k \<and> name p = stem_of_name f @ ''_'' @ str_nat k @ suffix_of_name f))"
proof (cases "path_exists fs (joinpath d f)")
  case False
  with assms(2) have "p = joinpath d f" by (simp add: get_unique_filepath_def)
  with assms(1) show ?thesis by (simp add: parent_joinpath_filename_id name_joinpath_filename)
next
  case True
  note ss = stem_suffix_filename[OF assms(1)]
  from True assms(2) have "next_free fs d (stem_of_name f) (suffix_of_name f) 1 = Some p"
    by (simp add: get_unique_filepath_def Let_def ss(1,2))
  from next_free_sound[OF this] obtain k where k: "1 \<le> k"
    and p: "p = joinpath d (stem_of_name f @ ''_'' @ str_nat k @ suffix_of_name f)" by blast
  have fn: "is_filename (stem_of_name f @ ''_'' @ str_nat k @ suffix_of_name f)"
    by (rule numbered_is_filename[OF ss(3,4)])
  have "parent p = d" unfolding p by (rule parent_joinpath_filename_id[OF fn])
  moreover have "name p = stem_of_name f @ ''_'' @ str_nat k @ suffix_of_name f"
    unfolding p by (rule name_joinpath_filename[OF fn])
  ultimately show ?thesis using k by blast
qed




section \<open>The claims about the conversion pipeline\<close>






lemma process_one_success:
  assumes po: "process_one pil mw cfg fs ip = Some (fs', Inr outp)"
  shows "\<exists>fs1 img0 img2 c.
           mkdir_exist_ok fs (joinpath (parent ip) (snd (snd cfg))) = Inr fs1
         \<and> image_open pil fs ip = Inr img0
         \<and> resize_step pil mw (img0\<lparr>img_mode := ''RGB''\<rparr>) = Inr img2
         \<and> get_unique_filepath fs1 (joinpath (parent ip) (snd (snd cfg)))
              (stem ip @ fst (snd cfg)) = Some outp
         \<and> pil_save pil (save_arguments (fst cfg)) img2 = Inr c
         \<and> fs' = write_file fs1 outp c
         \<and> map_of fs' outp = Some (File c)"
  using process_one_cases[OF po]
proof (elim disjE exE conjE)
  fix e assume "Inr outp = Inl e"
  then show ?thesis by simp
next
  fix fs1 e assume "Inr outp = Inl e"
  then show ?thesis by simp
next
  fix fs1 img0 img1 img2 op res
  assume mk: "mkdir_exist_ok fs (joinpath (parent ip) (snd (snd cfg))) = Inr fs1"
    and io: "image_open pil fs1 ip = Inr img0"
    and cv: "convert pil img0 ''RGB'' = Inr img1"
    and rs: "resize_step pil mw img1 = Inr img2"
    and gu: "get_unique_filepath fs1 (joinpath (parent ip) (snd (snd cfg)))
              (stem ip @ fst (snd cfg)) = Some op"
    and sv: "img_save pil fs1 op (save_arguments (fst cfg)) img2 = (fs', res)"
    and r: "Inr outp = (case res of None \<Rightarrow> Inr op | Some e \<Rightarrow> Inl e)"
  from r have res: "res = None" and op: "op = outp" by (cases res; simp)+
  from io have io': "image_open pil fs ip = Inr img0" by (simp add: image_open_mkdir[OF mk])
  from cv have i1: "img1 = img0\<lparr>img_mode := ''RGB''\<rparr>"
    by (simp add: convert_def split: option.splits)
  from img_save_None[OF sv[unfolded res]] obtain c
    where ps: "pil_save pil (save_arguments (fst cfg)) img2 = Inr c"
      and fs': "fs' = write_file fs1 op c" and ow: "open_for_writing fs1 op = None" by blast
  have new: "map_of fs' op = Some (File c)"
    unfolding fs' by (rule write_file_self[OF open_for_writing_not_dir[OF ow]])
  from mk io' rs gu ps fs' new show ?thesis unfolding i1 op by blast
qed




text \<open>
  C5. For a source file that was converted (a path as \<^verbatim>\<open>pathlib\<close> builds it, with a
  last component), the output path lies directly in the
  folder \<^verbatim>\<open>webp\<close> (for WebP) or \<^verbatim>\<open>jpg\<close> (otherwise) of the source file's own parent
  directory. The resolver is asked for the source's stem followed by \<^verbatim>\<open>.webp\<close> or
  \<^verbatim>\<open>.jpg\<close>, and the output's name is that name or the stem, an underscore, a counter
  and the same extension.
\<close>

theorem output_location:
  assumes "process_one pil max_width (settings mode_type) fs image_path = Some (fs', Inr output_path)"
    and "wf_path image_path" and "parts image_path \<noteq> []"
  shows "snd (snd (settings mode_type))
           = (if mode_type = ''webp'' \<or> mode_type = ''w'' then ''webp'' else ''jpg'')
    \<and> fst (snd (settings mode_type))
           = (if mode_type = ''webp'' \<or> mode_type = ''w'' then ''.webp'' else ''.jpg'')
    \<and> parent output_path = joinpath (parent image_path) (snd (snd (settings mode_type)))
    \<and> parent (parent output_path) = parent image_path
    \<and> (name output_path = stem image_path @ fst (snd (settings mode_type))
        \<or> (\<exists>k. 1 \<le> k \<and> name output_path
               = stem image_path @ ''_'' @ str_nat k @ fst (snd (settings mode_type))))
    \<and> (\<exists>fs1. mkdir_exist_ok fs (joinpath (parent image_path) (snd (snd (settings mode_type)))) = Inr fs1
          \<and> get_unique_filepath fs1 (joinpath (parent image_path) (snd (snd (settings mode_type))))
               (stem image_path @ fst (snd (settings mode_type))) = Some output_path)"
proof -
  let ?od = "joinpath (parent image_path) (snd (snd (settings mode_type)))"
  let ?ext = "fst (snd (settings mode_type))"
  from process_one_success[OF assms(1)] obtain fs1 where
    mk: "mkdir_exist_ok fs ?od = Inr fs1"
    and gu: "get_unique_filepath fs1 ?od (stem image_path @ ?ext) = Some output_path" by blast
  have fn: "is_filename (stem image_path @ ?ext)" by (rule out_filename[OF assms(2)])
  from assms(3) have "name image_path \<noteq> []"
    using assms(2) by (auto simp: name_def wf_path_def list_all_iff is_filename_def)
  then have st: "stem image_path \<noteq> []" unfolding stem_def by (rule stem_of_name_nonempty)
  obtain e where e: "?ext = CHR ''.'' # e" "CHR ''.'' \<notin> set e" "e \<noteq> []"
    using settings_ext[of mode_type] by blast
  have ss: "stem_of_name (stem image_path @ ?ext) = stem image_path"
    "suffix_of_name (stem image_path @ ?ext) = ?ext"
    unfolding e(1) by (rule stem_suffix_ext[OF e(2,3) st])+
  from get_unique_filepath_shape[OF fn gu]
  have par: "parent output_path = ?od"
    and nm: "name output_path = stem image_path @ ?ext
        \<or> (\<exists>k. 1 \<le> k \<and> name output_path = stem image_path @ ''_'' @ str_nat k @ ?ext)"
    unfolding ss by blast+
  have folder: "is_filename (snd (snd (settings mode_type)))"
    by (simp add: settings_def is_filename_def)
  have pp: "parent (parent output_path) = parent image_path"
    unfolding par by (rule parent_joinpath_filename_id[OF folder])
  have s1: "snd (snd (settings mode_type))
           = (if mode_type = ''webp'' \<or> mode_type = ''w'' then ''webp'' else ''jpg'')"
    by (simp add: settings_def)
  have s2: "fst (snd (settings mode_type))
           = (if mode_type = ''webp'' \<or> mode_type = ''w'' then ''.webp'' else ''.jpg'')"
    by (simp add: settings_def)
  from mk gu have ex: "\<exists>fs1. mkdir_exist_ok fs ?od = Inr fs1
          \<and> get_unique_filepath fs1 ?od (stem image_path @ ?ext) = Some output_path" by blast
  show ?thesis by (intro conjI) (rule s1, rule s2, rule par, rule pp, rule nm, rule ex)
qed

theorem output_location_witness:
  "process_one example_pil 4000 (settings ''jpg'') example_fs (parse_path ''photos/a.png'')
     = Some (example_fs @ [(parse_path ''photos/jpg'', Dir),
                           (parse_path ''photos/jpg/a.jpg'', File (Some (2000, 1000)))],
             Inr (parse_path ''photos/jpg/a.jpg''))
   \<and> wf_path (parse_path ''photos/a.png'') \<and> parts (parse_path ''photos/a.png'') \<noteq> []
   \<and> parent (parse_path ''photos/jpg/a.jpg'')
       = joinpath (parent (parse_path ''photos/a.png'')) (snd (snd (settings ''jpg'')))
   \<and> parent (parent (parse_path ''photos/jpg/a.jpg'')) = parent (parse_path ''photos/a.png'')"
proof -
  have ok: "process_one example_pil 4000 (settings ''jpg'') example_fs (parse_path ''photos/a.png'')
     = Some (example_fs @ [(parse_path ''photos/jpg'', Dir),
                           (parse_path ''photos/jpg/a.jpg'', File (Some (2000, 1000)))],
             Inr (parse_path ''photos/jpg/a.jpg''))" by code_simp
  have wf: "wf_path (parse_path ''photos/a.png'')" by code_simp
  have ne: "parts (parse_path ''photos/a.png'') \<noteq> []" by code_simp
  note t = output_location[OF ok wf ne]
  show ?thesis
    by (intro conjI) (rule ok, rule wf, rule ne, rule t[THEN conjunct2, THEN conjunct2, THEN conjunct1],
        rule t[THEN conjunct2, THEN conjunct2, THEN conjunct2, THEN conjunct1])
qed

text \<open>
  C3. An image whose width does not exceed the maximum width is not resized, whatever
  its height: the resize step returns it as it is, and the encoder receives the
  decoded image with only its mode changed. An image 800 wide keeps its size at a
  maximum width of 1200.
\<close>

theorem no_upscaling:
  "(fst (img_size img) \<le> max_width \<longrightarrow> resize_step pil max_width img = Inr img)
   \<and> resize_step pil 1200 \<lparr>img_size = (800, h), img_mode = md\<rparr>
       = Inr \<lparr>img_size = (800, h), img_mode = md\<rparr>
   \<and> (process_one pil max_width cfg fs image_path = Some (fs', Inr output_path)
        \<and> image_open pil fs image_path = Inr img0 \<and> fst (img_size img0) \<le> max_width \<longrightarrow>
        (\<exists>c. pil_save pil (save_arguments (fst cfg)) (img0\<lparr>img_mode := ''RGB''\<rparr>) = Inr c
            \<and> map_of fs' output_path = Some (File c)
            \<and> img_size (img0\<lparr>img_mode := ''RGB''\<rparr>) = img_size img0))"
proof (intro conjI impI)
  show "resize_step pil max_width img = Inr img" if "fst (img_size img) \<le> max_width"
    using that by (cases "img_size img") (simp add: resize_step_def)
  show "resize_step pil 1200 \<lparr>img_size = (800, h), img_mode = md\<rparr>
       = Inr \<lparr>img_size = (800, h), img_mode = md\<rparr>"
    by (simp add: resize_step_def)
  show "\<exists>c. pil_save pil (save_arguments (fst cfg)) (img0\<lparr>img_mode := ''RGB''\<rparr>) = Inr c
            \<and> map_of fs' output_path = Some (File c)
            \<and> img_size (img0\<lparr>img_mode := ''RGB''\<rparr>) = img_size img0"
    if h: "process_one pil max_width cfg fs image_path = Some (fs', Inr output_path)
        \<and> image_open pil fs image_path = Inr img0 \<and> fst (img_size img0) \<le> max_width"
  proof -
    from h have po: "process_one pil max_width cfg fs image_path = Some (fs', Inr output_path)"
      and io: "image_open pil fs image_path = Inr img0" and le: "fst (img_size img0) \<le> max_width"
      by blast+
    from process_one_success[OF po] io obtain img2 c where
      rs: "resize_step pil max_width (img0\<lparr>img_mode := ''RGB''\<rparr>) = Inr img2"
      and sv: "pil_save pil (save_arguments (fst cfg)) img2 = Inr c"
      and new: "map_of fs' output_path = Some (File c)" by auto
    from le rs have "img2 = img0\<lparr>img_mode := ''RGB''\<rparr>"
      by (cases "img_size img0") (simp add: resize_step_def)
    with sv new show ?thesis by simp
  qed
qed

theorem no_upscaling_witness:
  "fst (img_size \<lparr>img_size = (800, 30000), img_mode = ''RGB''\<rparr>) \<le> (1200 :: int)
   \<and> resize_step example_pil 1200 \<lparr>img_size = (800, 30000), img_mode = ''RGB''\<rparr>
       = Inr \<lparr>img_size = (800, 30000), img_mode = ''RGB''\<rparr>"
proof -
  have le: "fst (img_size \<lparr>img_size = (800, 30000), img_mode = ''RGB''\<rparr>) \<le> (1200 :: int)" by simp
  note t = no_upscaling[where img = "\<lparr>img_size = (800, 30000), img_mode = ''RGB''\<rparr>"
      and max_width = 1200 and pil = example_pil]
  show ?thesis by (intro conjI) (rule le, rule t[THEN conjunct1, rule_format, OF le])
qed

section \<open>Facts about rounding\<close>

lemma two_powi_nat: "0 \<le> k \<Longrightarrow> (2::rat) powi k = of_int (2 ^ nat k)"
  by (simp add: power_int_nonneg_exp)

lemma bitlen_pos: "0 < a \<Longrightarrow> 1 \<le> bitlen a"
  using bitlen_eq_zero_iff[of a] bitlen_nonneg[of a] by linarith

lemma ilog2_bounds:
  assumes "0 < q"
  shows "2 powi (ilog2 q) \<le> q" "q < 2 powi (ilog2 q + 1)"
proof -
  obtain a b where ab: "quotient_of q = (a, b)" by (cases "quotient_of q")
  have b: "0 < b" by (rule quotient_of_denom_pos[OF ab])
  have q: "q = of_int a / of_int b" by (rule quotient_of_div[OF ab])
  have a: "0 < a" using assms b unfolding q by (simp add: zero_less_divide_iff)
  define la lb where "la = bitlen a" and "lb = bitlen b"
  have la1: "1 \<le> la" and lb1: "1 \<le> lb" using bitlen_pos a b by (simp_all add: la_def lb_def)
  have A1: "(2::rat) powi (la - 1) \<le> of_int a"
  proof -
    have "(2::int) ^ nat (la - 1) \<le> a" using bitlen_bounds[OF a] by (simp add: la_def)
    then have "(of_int ((2::int) ^ nat (la - 1)) :: rat) \<le> of_int a" by (simp only: of_int_le_iff)
    then show ?thesis using la1 by (simp add: two_powi_nat)
  qed
  have A2: "of_int a < (2::rat) powi la"
  proof -
    have "a < (2::int) ^ nat la" using bitlen_bounds[OF a] by (simp add: la_def)
    then have "(of_int a :: rat) < of_int ((2::int) ^ nat la)" by (simp only: of_int_less_iff)
    then show ?thesis using la1 by (simp add: two_powi_nat)
  qed
  have B1: "(2::rat) powi (lb - 1) \<le> of_int b"
  proof -
    have "(2::int) ^ nat (lb - 1) \<le> b" using bitlen_bounds[OF b] by (simp add: lb_def)
    then have "(of_int ((2::int) ^ nat (lb - 1)) :: rat) \<le> of_int b" by (simp only: of_int_le_iff)
    then show ?thesis using lb1 by (simp add: two_powi_nat)
  qed
  have B2: "of_int b < (2::rat) powi lb"
  proof -
    have "b < (2::int) ^ nat lb" using bitlen_bounds[OF b] by (simp add: lb_def)
    then have "(of_int b :: rat) < of_int ((2::int) ^ nat lb)" by (simp only: of_int_less_iff)
    then show ?thesis using lb1 by (simp add: two_powi_nat)
  qed
  have pa: "(0::rat) < of_int a" and pb: "(0::rat) < of_int b" using a b by simp_all
  have up: "q < 2 powi (la - lb + 1)"
  proof -
    have "of_int a / of_int b < (2::rat) powi la / 2 powi (lb - 1)"
      by (rule frac_less) (use pa A2 B1 in simp_all)
    also have "\<dots> = 2 powi (la - (lb - 1))" by (simp add: power_int_diff)
    also have "la - (lb - 1) = la - lb + 1" by simp
    finally show ?thesis unfolding q .
  qed
  have lo: "2 powi (la - lb - 1) < q"
  proof -
    have "(2::rat) powi (la - 1) / 2 powi lb < of_int a / of_int b"
      by (rule frac_less2) (use A1 B2 pb in simp_all)
    moreover have "(2::rat) powi (la - 1) / 2 powi lb = 2 powi (la - 1 - lb)"
      by (simp add: power_int_diff)
    moreover have "la - 1 - lb = la - lb - 1" by simp
    ultimately show ?thesis unfolding q by simp
  qed
  have il: "ilog2 q = (if 2 powi (la - lb) \<le> q then la - lb else la - lb - 1)"
    by (simp add: ilog2_def Let_def ab la_def lb_def)
  show "2 powi (ilog2 q) \<le> q" using lo unfolding il by auto
  show "q < 2 powi (ilog2 q + 1)" using up unfolding il by auto
qed

lemma ilog2_unique:
  assumes "0 < q" "2 powi e \<le> q" "q < 2 powi (e + 1)"
  shows "ilog2 q = e"
proof (rule antisym)
  show "ilog2 q \<le> e"
  proof (rule ccontr)
    assume "\<not> ilog2 q \<le> e"
    then have "e + 1 \<le> ilog2 q" by simp
    then have "(2::rat) powi (e + 1) \<le> 2 powi (ilog2 q)" by (rule power_int_increasing) simp
    with ilog2_bounds(1)[OF assms(1)] assms(3) show False by simp
  qed
  show "e \<le> ilog2 q"
  proof (rule ccontr)
    assume "\<not> e \<le> ilog2 q"
    then have "ilog2 q + 1 \<le> e" by simp
    then have "(2::rat) powi (ilog2 q + 1) \<le> 2 powi e" by (rule power_int_increasing) simp
    with ilog2_bounds(2)[OF assms(1)] assms(2) show False by simp
  qed
qed

lemma round_half_even_error: "\<bar>of_int (round_half_even x) - x\<bar> \<le> 1 / 2"
proof -
  have "of_int \<lfloor>x\<rfloor> \<le> x" "x < of_int \<lfloor>x\<rfloor> + 1" by linarith+
  then show ?thesis by (auto simp: round_half_even_def Let_def)
qed

lemma round_half_even_of_int [simp]: "round_half_even (of_int n) = n"
  by (simp add: round_half_even_def)


lemma round_double_pos_error:
  assumes lo: "2 powi (- 1022) \<le> q" and hi: "q < 2 ^ 1023"
  shows "\<exists>r. round_double_pos q = Finite r \<and> \<bar>r - q\<bar> \<le> q / 2 ^ 53"
proof -
  have "(0::rat) < 2 powi (- 1022)" by (rule zero_less_power_int) simp
  with lo have q0: "0 < q" by simp
  define i where "i = ilog2 q"
  have b1: "2 powi i \<le> q" and b2: "q < 2 powi (i + 1)"
    unfolding i_def by (rule ilog2_bounds[OF q0])+
  have i_lo: "- 1022 \<le> i"
  proof (rule ccontr)
    assume "\<not> - 1022 \<le> i"
    then have "i + 1 \<le> - 1022" by simp
    then have "(2::rat) powi (i + 1) \<le> 2 powi (- 1022)" by (rule power_int_increasing) simp
    with lo b2 show False by simp
  qed
  define s where "s = (2::rat) powi (i - 52)"
  have s0: "0 < s" unfolding s_def by (rule zero_less_power_int) simp
  have e: "max (i - 52) (- 1074) = i - 52" using i_lo by simp
  define n where "n = round_half_even (q / s)"
  have rd: "round_double_pos q = (if of_int n * s < 2 ^ 1024 then Finite (of_int n * s) else Inf)"
    unfolding round_double_pos_def Let_def i_def[symmetric] e s_def[symmetric] n_def[symmetric] ..
  have "of_int n * s - q = s * (of_int n - q / s)" using s0 by (simp add: field_simps)
  then have "\<bar>of_int n * s - q\<bar> = s * \<bar>of_int n - q / s\<bar>"
    using s0 by (simp add: abs_mult)
  also have "\<dots> \<le> s * (1 / 2)"
    using s0 round_half_even_error[of "q / s"] unfolding n_def by (intro mult_left_mono) simp_all
  finally have err: "\<bar>of_int n * s - q\<bar> \<le> s / 2" by simp
  have "s = 2 powi i / 2 ^ 52" unfolding s_def by (simp add: power_int_diff)
  then have "s / 2 = 2 powi i / 2 ^ 53" by simp
  also have "\<dots> \<le> q / 2 ^ 53" using b1 by (simp add: divide_right_mono)
  finally have s2: "s / 2 \<le> q / 2 ^ 53" .
  from err s2 have bound: "\<bar>of_int n * s - q\<bar> \<le> q / 2 ^ 53" by simp
  have "q / 2 ^ 53 \<le> q" using q0 by (simp add: field_simps)
  with bound have "of_int n * s \<le> q + q" by linarith
  also have "\<dots> < 2 ^ 1023 + 2 ^ 1023" using hi by simp
  also have "\<dots> = (2::rat) ^ 1024" by simp
  finally have "of_int n * s < 2 ^ 1024" .
  with rd bound show ?thesis by simp
qed

lemma round_double_pos_int:
  assumes "0 < n" "n < 2 ^ 53"
  shows "round_double_pos (of_int n) = Finite (of_int n)"
proof -
  let ?q = "of_int n :: rat"
  have q0: "0 < ?q" using assms(1) by simp
  define i where "i = ilog2 ?q"
  have b1: "2 powi i \<le> ?q" and b2: "?q < 2 powi (i + 1)"
    unfolding i_def by (rule ilog2_bounds[OF q0])+
  have i0: "0 \<le> i"
  proof (rule ccontr)
    assume "\<not> 0 \<le> i"
    then have "i + 1 \<le> 0" by simp
    then have "(2::rat) powi (i + 1) \<le> 2 powi 0" by (rule power_int_increasing) simp
    with b2 have "?q < 1" by simp
    with assms(1) show False by simp
  qed
  have i52: "i \<le> 52"
  proof (rule ccontr)
    assume "\<not> i \<le> 52"
    then have "53 \<le> i" by simp
    then have "(2::rat) powi 53 \<le> 2 powi i" by (rule power_int_increasing) simp
    with b1 have "(2::rat) ^ 53 \<le> ?q" by simp
    moreover have "?q < of_int (2 ^ 53)" using assms(2) by (simp only: of_int_less_iff)
    ultimately show False by simp
  qed
  define k where "k = nat (52 - i)"
  have ik: "i - 52 = - int k" using i52 by (simp add: k_def)
  have s: "(2::rat) powi (i - 52) = 1 / 2 ^ k" unfolding ik by (simp add: power_int_minus_divide)
  have e: "max (i - 52) (- 1074) = i - 52" using i0 by simp
  have qs: "?q / (2 powi (i - 52)) = of_int (n * 2 ^ k)" unfolding s by simp
  have r: "of_int (round_half_even (?q / (2 powi (i - 52)))) * (2::rat) powi (i - 52) = ?q"
    unfolding qs round_half_even_of_int unfolding s by simp
  have "?q < of_int (2 ^ 53)" using assms(2) by (simp only: of_int_less_iff)
  also have "\<dots> = (2::rat) ^ 53" by simp
  also have "\<dots> \<le> 2 ^ 1024" by (rule power_increasing) simp_all
  finally have lt: "?q < 2 ^ 1024" .
  show ?thesis
    unfolding round_double_pos_def Let_def i_def[symmetric] e r using lt by simp
qed

lemma round_double_pos_eval:
  assumes q0: "0 < q" and lo: "2 ^ 52 \<le> q * 2 ^ k" and hi: "q * 2 ^ k < 2 ^ 53"
    and k: "k \<le> 1074"
  shows "round_double_pos q = Finite (of_int (round_half_even (q * 2 ^ k)) / 2 ^ k)"
proof -
  have p: "(2::rat) powi (52 - int k) = 2 ^ 52 / 2 ^ k" "(2::rat) powi (52 - int k + 1) = 2 ^ 53 / 2 ^ k"
    by (simp_all add: power_int_diff power_int_add)
  have "ilog2 q = 52 - int k"
  proof (rule ilog2_unique[OF q0])
    show "2 powi (52 - int k) \<le> q" unfolding p using lo by (simp add: field_simps)
    show "q < 2 powi (52 - int k + 1)" unfolding p using hi by (simp add: field_simps)
  qed
  then have i: "ilog2 q - 52 = - int k" by simp
  have e: "max (- int k) (- 1074) = - int k" using k by simp
  have s: "(2::rat) powi (- int k) = 1 / 2 ^ k" by (simp add: power_int_minus_divide)
  define n where "n = round_half_even (q * 2 ^ k)"
  have "of_int n - q * 2 ^ k \<le> 1 / 2"
    using round_half_even_error[of "q * 2 ^ k"] unfolding n_def by linarith
  with hi have n53: "(of_int n :: rat) < 2 ^ 53 + 1" by linarith
  have big: "(2::rat) ^ 53 + 1 < 2 ^ 1024"
  proof -
    have "(2::rat) ^ 53 + 1 < 2 ^ 54" by simp
    also have "\<dots> \<le> 2 ^ 1024" by (rule power_increasing) simp_all
    finally show ?thesis .
  qed
  have lt: "(of_int n :: rat) / 2 ^ k < 2 ^ 1024"
  proof (cases "(of_int n :: rat) \<le> 0")
    case True
    then have "(of_int n :: rat) / 2 ^ k \<le> 0" by (simp add: divide_le_0_iff)
    moreover have "(0::rat) < 2 ^ 1024" by simp
    ultimately show ?thesis by linarith
  next
    case False
    then have "0 < (of_int n :: rat)" by simp
    moreover have "(1::rat) \<le> 2 ^ k" by simp
    ultimately have "(of_int n :: rat) / 2 ^ k \<le> of_int n / 1" by (intro divide_left_mono) simp_all
    then have "(of_int n :: rat) / 2 ^ k \<le> of_int n" by simp
    with n53 big show ?thesis by linarith
  qed
  show ?thesis
    unfolding round_double_pos_def Let_def i e s using lt by (simp add: n_def)
qed

lemma floor_close:
  fixes r :: rat and a w :: int
  assumes w: "0 < w" and c: "\<bar>r - of_int a / of_int w\<bar> < 1 / of_int w"
  shows "(a mod w \<noteq> 0 \<longrightarrow> \<lfloor>r\<rfloor> = a div w)
       \<and> (\<lfloor>r\<rfloor> = a div w \<or> (w dvd a \<and> \<lfloor>r\<rfloor> = a div w - 1))"
proof -
  define k t where "k = a div w" and "t = a mod w"
  have a: "a = w * k + t" unfolding k_def t_def by simp
  have t: "0 \<le> t" "t < w" unfolding t_def using w by simp_all
  have w0: "(0::rat) < of_int w" using w by simp
  have E: "(of_int a :: rat) / of_int w = of_int k + of_int t / of_int w"
    unfolding a using w0 by (simp add: field_simps)
  have "r < of_int a / of_int w + 1 / of_int w" using c by linarith
  also have "\<dots> = of_int k + (of_int t + 1) / of_int w" unfolding E by (simp add: add_divide_distrib)
  also have "\<dots> \<le> of_int k + 1"
  proof -
    have "(of_int t + 1 :: rat) \<le> of_int w" using t(2) by (metis of_int_1 of_int_add of_int_le_iff zless_imp_add1_zle)
    then have "(of_int t + 1) / (of_int w :: rat) \<le> 1" using w0 by (simp add: field_simps)
    then show ?thesis by simp
  qed
  finally have "r < of_int (k + 1)" by simp
  then have up: "\<lfloor>r\<rfloor> \<le> k" unfolding floor_less_iff[symmetric] by simp
  have lo: "of_int a / of_int w - 1 / of_int w < r" using c by linarith
  show ?thesis
  proof (cases "t = 0")
    case True
    then have dv: "w dvd a" unfolding t_def by (simp add: dvd_eq_mod_eq_0)
    have "(1::rat) / of_int w \<le> 1" using w w0 by (simp add: field_simps)
    with lo have "of_int k - 1 < r" unfolding E True by simp
    then have "of_int (k - 1) \<le> r" by simp
    then have "k - 1 \<le> \<lfloor>r\<rfloor>" by (simp only: le_floor_iff)
    with up have "\<lfloor>r\<rfloor> = k \<or> \<lfloor>r\<rfloor> = k - 1" by linarith
    with dv True show ?thesis unfolding k_def t_def by auto
  next
    case False
    with t(1) have "1 \<le> t" by simp
    then have "(1::rat) \<le> of_int t" by simp
    then have "(0::rat) \<le> (of_int t - 1) / of_int w" using w0 by simp
    moreover have "of_int a / of_int w - 1 / of_int w = of_int k + (of_int t - 1) / (of_int w :: rat)"
      unfolding E by (simp add: diff_divide_distrib)
    ultimately have "of_int k \<le> r" using lo by linarith
    then have "k \<le> \<lfloor>r\<rfloor>" by (simp only: le_floor_iff)
    with up have "\<lfloor>r\<rfloor> = k" by simp
    then show ?thesis unfolding k_def by simp
  qed
qed


lemma new_height_close:
  assumes m: "0 < m" "m < w" and h: "0 < h" and wb: "w \<le> 2 ^ 25" and hb: "h \<le> 2 ^ 25"
  shows "\<exists>r :: rat. new_height m w h = Inr \<lfloor>r\<rfloor>
            \<and> \<bar>r - of_int (m * h) / of_int w\<bar> < 1 / of_int w"
proof -
  define q :: rat where "q = of_int m / of_int w"
  define u :: rat where "u = 1 / 2 ^ 53"
  define E :: rat where "E = of_int (m * h) / of_int w"
  have w0: "0 < w" using m by simp
  have rw0: "(0::rat) < of_int w" and rm0: "(0::rat) < of_int m" and rh0: "(0::rat) < of_int h"
    using w0 m h by simp_all
  have rm1: "(1::rat) \<le> of_int m"
  proof -
    have "1 \<le> m" using m(1) by simp
    then have "(of_int 1 :: rat) \<le> of_int m" by (simp only: of_int_le_iff)
    then show ?thesis by simp
  qed
  have rh1: "(1::rat) \<le> of_int h"
  proof -
    have "1 \<le> h" using h by simp
    then have "(of_int 1 :: rat) \<le> of_int h" by (simp only: of_int_le_iff)
    then show ?thesis by simp
  qed
  have rwb: "(of_int w :: rat) \<le> 2 ^ 25" using wb by (metis of_int_le_iff of_int_numeral of_int_power)
  have rhb: "(of_int h :: rat) \<le> 2 ^ 25" using hb by (metis of_int_le_iff of_int_numeral of_int_power)
  have u0: "0 < u" and u1: "u \<le> 1" unfolding u_def by simp_all
  have q0: "0 < q" unfolding q_def using rw0 rm0 by simp
  have q1: "q < 1" unfolding q_def using m(2) rw0 by simp
  have E0: "0 < E" unfolding E_def using rw0 rm0 rh0 by simp
  have Eq: "E = q * of_int h" unfolding E_def q_def by simp
  have inv_w: "1 / 2 ^ 25 \<le> 1 / (of_int w :: rat)"
    using rwb rw0 by (intro divide_left_mono) simp_all
  have q25: "1 / 2 ^ 25 \<le> q"
  proof -
    have "1 / (of_int w :: rat) \<le> of_int m / of_int w" using rm1 rw0 by (intro divide_right_mono) simp_all
    with inv_w show ?thesis unfolding q_def by linarith
  qed
  have tiny: "(2::rat) powi (- 1022) \<le> 1 / 2 ^ 26"
  proof -
    have "(2::rat) powi (- 1022) \<le> 2 powi (- 26)" by (rule power_int_increasing) simp_all
    also have "\<dots> = 1 / 2 ^ 26" by (simp add: power_int_minus_divide)
    finally show ?thesis .
  qed
  have qlo: "2 powi (- 1022) \<le> q" using tiny q25 by simp
  have qhi: "q < 2 ^ 1023"
  proof -
    have "(1::rat) \<le> 2 ^ 1023" by (rule one_le_power) simp
    with q1 show ?thesis by linarith
  qed
  from round_double_pos_error[OF qlo qhi] obtain r1
    where r1: "round_double_pos q = Finite r1" and e1: "\<bar>r1 - q\<bar> \<le> q * u"
    unfolding u_def by auto
  have td: "py_truediv m w = Inr r1"
    using w0 q0 r1 by (simp add: py_truediv_def round_double_def q_def[symmetric])
  have h53: "h < 2 ^ 53" using hb by simp
  have hf: "py_float_of_int h = Inr (of_int h)"
    using rh0 round_double_pos_int[OF h h53] by (simp add: py_float_of_int_def round_double_def)
  have qu: "q * u \<le> q / 2" using q0 unfolding u_def by simp
  have r1lo: "q / 2 \<le> r1" and r1hi: "r1 \<le> 2" using e1 qu q1 q0 by linarith+
  define p where "p = r1 * of_int h"
  have r1pos: "0 < r1" using r1lo q0 by linarith
  have p0: "0 < p" unfolding p_def using r1pos rh0 by simp
  have plo: "2 powi (- 1022) \<le> p"
  proof -
    have "r1 * 1 \<le> r1 * of_int h" using rh1 r1pos by (intro mult_left_mono) simp_all
    then have "r1 \<le> p" unfolding p_def by simp
    with r1lo q25 tiny show ?thesis by simp
  qed
  have phi: "p < 2 ^ 1023"
  proof -
    have "p \<le> 2 * 2 ^ 25" unfolding p_def using r1hi rhb r1pos rh0 by (intro mult_mono) simp_all
    also have "\<dots> = (2::rat) ^ 26" by simp
    also have "\<dots> < 2 ^ 1023" by (rule power_strict_increasing) simp_all
    finally show ?thesis .
  qed
  from round_double_pos_error[OF plo phi] obtain r2
    where r2: "round_double_pos p = Finite r2" and e2: "\<bar>r2 - p\<bar> \<le> p * u"
    unfolding u_def by auto
  have fm: "float_mul r1 (of_int h) = Finite r2"
    using p0 r2 by (simp add: float_mul_def round_double_def p_def[symmetric])
  have pu: "p * u \<le> p" using p0 u1 by (simp add: mult_left_le)
  have r2pos: "0 \<le> r2" using e2 pu p0 by linarith
  have nh: "new_height m w h = Inr \<lfloor>r2\<rfloor>"
    using td hf fm r2pos by (simp add: new_height_def py_int_def)
  have "p - E = (r1 - q) * of_int h" unfolding p_def Eq by (simp add: algebra_simps)
  then have "\<bar>p - E\<bar> = \<bar>r1 - q\<bar> * of_int h" using rh0 by (simp add: abs_mult)
  also have "\<dots> \<le> (q * u) * of_int h" using e1 rh0 by (intro mult_right_mono) simp_all
  also have "\<dots> = E * u" unfolding Eq by simp
  finally have B: "\<bar>p - E\<bar> \<le> E * u" .
  have Eu0: "0 \<le> E * u" using E0 u0 by simp
  have "p \<le> E + E * u" using B by linarith
  then have "p * u \<le> (E + E * u) * u" using u0 by (intro mult_right_mono) simp_all
  also have "\<dots> = E * u + (E * u) * u" by (simp add: algebra_simps)
  also have "\<dots> \<le> E * u + E * u" using Eu0 u1 by (simp add: mult_left_le)
  finally have C: "\<bar>r2 - p\<bar> \<le> 2 * (E * u)" using e2 by linarith
  from B C have D: "\<bar>r2 - E\<bar> \<le> 3 * (E * u)" by linarith
  have mh: "(of_int (m * h) :: rat) \<le> 2 ^ 50"
  proof -
    have "m * h \<le> 2 ^ 25 * 2 ^ 25" using m h wb hb by (intro mult_mono) simp_all
    then have "m * h \<le> 2 ^ 50" by simp
    then show ?thesis by (metis of_int_le_iff of_int_numeral of_int_power)
  qed
  have "3 * (E * u) = (3 * of_int (m * h) / 2 ^ 53) / of_int w" unfolding E_def u_def by simp
  also have "\<dots> < 1 / of_int w"
  proof -
    have "3 * (of_int (m * h) :: rat) / 2 ^ 53 < 1" using mh by simp
    then show ?thesis using rw0 by (intro divide_strict_right_mono) simp_all
  qed
  finally have "3 * (E * u) < 1 / of_int w" .
  with D have "\<bar>r2 - E\<bar> < 1 / of_int w" by linarith
  with nh show ?thesis unfolding E_def by blast
qed

lemma floor_numeral_rat [simp]: "\<lfloor>(numeral a :: rat) / numeral b\<rfloor> = numeral a div numeral b"
  by (metis floor_divide_of_int_eq of_int_numeral)

lemma new_height_2000_1000: "new_height 1000 2000 1000 = Inr 500"
proof -
  have a: "round_double_pos (1 / 2) = Finite (1 / 2)"
    using round_double_pos_eval[of "1 / 2" 53] by (simp add: round_half_even_def)
  have b: "round_double_pos 1000 = Finite 1000"
    using round_double_pos_int[of 1000] by simp
  have c: "round_double_pos 500 = Finite 500"
    using round_double_pos_int[of 500] by simp
  show ?thesis
    by (simp add: new_height_def py_truediv_def py_float_of_int_def float_mul_def py_int_def
        round_double_def a b c)
qed

lemma new_height_1392_1160: "new_height 1200 1392 1160 = Inr 999"
proof -
  have a: "round_double_pos (25 / 29) = Finite (7764826943742234 / 2 ^ 53)"
    using round_double_pos_eval[of "25 / 29" 53] by (simp add: round_half_even_def Let_def)
  have b: "round_double_pos 1160 = Finite 1160"
    using round_double_pos_int[of 1160] by simp
  have c: "round_double_pos (562949953421311965 / 562949953421312) = Finite (8796093022207999 / 2 ^ 43)"
    using round_double_pos_eval[of "562949953421311965 / 562949953421312" 43]
    by (simp add: round_half_even_def Let_def)
  have q: "(1200 :: rat) / 1392 = 25 / 29" by simp
  show ?thesis
    by (simp add: new_height_def py_truediv_def py_float_of_int_def float_mul_def py_int_def
        round_double_def q a b c)
qed


lemma resize_step_wider:
  assumes "img_size img = (width, height)" "max_width < width"
  shows "resize_step pil max_width img =
           (case new_height max_width width height of
              Inl e \<Rightarrow> Inl e
            | Inr nh \<Rightarrow> resize pil img (max_width, nh))"
  using assms by (simp add: resize_step_def)

section \<open>The claim about the resize dimensions\<close>

text \<open>
  C2, as amended. For an image wider than the maximum width, the pipeline asks for a
  resize to the maximum width and to the height \<^verbatim>\<open>int((max_width / width) * height)\<close>,
  which Python evaluates in double precision. For a positive maximum width and
  dimensions up to \<open>2 ^ 25\<close> that height is the floor of
  \<open>max_width * height / width\<close> whenever the width does not divide
  \<open>max_width * height\<close>, and it is that quotient or one less when it does.
  The image that reaches the encoder has that size. An image 2000 by 1000 at a
  maximum width of 1000 becomes 1000 by 500.
\<close>

theorem resize_dimensions:
  "(0 < max_width \<and> max_width < width \<and> 0 < height \<and> width \<le> 2 ^ 25 \<and> height \<le> 2 ^ 25 \<longrightarrow>
      (\<exists>nh. new_height max_width width height = Inr nh
          \<and> (\<not> width dvd max_width * height \<longrightarrow> nh = (max_width * height) div width)
          \<and> (nh = (max_width * height) div width \<or> nh = (max_width * height) div width - 1)
          \<and> (img_size img = (width, height) \<longrightarrow>
                resize_step pil max_width img = resize pil img (max_width, nh))
          \<and> (img_size img = (width, height) \<and> pil_resize pil img (max_width, nh) = None \<longrightarrow>
                resize_step pil max_width img = Inr (img\<lparr>img_size := (max_width, nh)\<rparr>))))
   \<and> (process_one pil max_width cfg fs image_path = Some (fs', Inr output_path)
        \<and> image_open pil fs image_path = Inr img0 \<and> img_size img0 = (width, height)
        \<and> max_width < width \<longrightarrow>
        (\<exists>nh c. new_height max_width width height = Inr nh
            \<and> pil_save pil (save_arguments (fst cfg))
                  (img0\<lparr>img_mode := ''RGB'', img_size := (max_width, nh)\<rparr>) = Inr c
            \<and> map_of fs' output_path = Some (File c)))
   \<and> new_height 1000 2000 1000 = Inr 500
   \<and> (pil_resize pil \<lparr>img_size = (2000, 1000), img_mode = md\<rparr> (1000, 500) = None \<longrightarrow>
        resize_step pil 1000 \<lparr>img_size = (2000, 1000), img_mode = md\<rparr>
          = Inr \<lparr>img_size = (1000, 500), img_mode = md\<rparr>)"
proof (intro conjI impI)
  assume h: "0 < max_width \<and> max_width < width \<and> 0 < height \<and> width \<le> 2 ^ 25 \<and> height \<le> 2 ^ 25"
  then have w0: "0 < width" by simp
  from h new_height_close[of max_width width height] obtain r :: rat
    where nh: "new_height max_width width height = Inr \<lfloor>r\<rfloor>"
      and c: "\<bar>r - of_int (max_width * height) / of_int width\<bar> < 1 / of_int width"
    by blast
  note fc = floor_close[OF w0 c]
  have 1: "\<not> width dvd max_width * height \<longrightarrow> \<lfloor>r\<rfloor> = (max_width * height) div width"
    using fc by (simp add: dvd_eq_mod_eq_0)
  have 2: "\<lfloor>r\<rfloor> = (max_width * height) div width \<or> \<lfloor>r\<rfloor> = (max_width * height) div width - 1"
    using fc by blast
  have 3: "img_size img = (width, height) \<longrightarrow>
                resize_step pil max_width img = resize pil img (max_width, \<lfloor>r\<rfloor>)"
    using h nh by (simp add: resize_step_wider)
  have 4: "img_size img = (width, height) \<and> pil_resize pil img (max_width, \<lfloor>r\<rfloor>) = None \<longrightarrow>
                resize_step pil max_width img = Inr (img\<lparr>img_size := (max_width, \<lfloor>r\<rfloor>)\<rparr>)"
    using h nh by (simp add: resize_step_wider resize_def)
  from nh 1 2 3 4 show "\<exists>nh. new_height max_width width height = Inr nh
          \<and> (\<not> width dvd max_width * height \<longrightarrow> nh = (max_width * height) div width)
          \<and> (nh = (max_width * height) div width \<or> nh = (max_width * height) div width - 1)
          \<and> (img_size img = (width, height) \<longrightarrow>
                resize_step pil max_width img = resize pil img (max_width, nh))
          \<and> (img_size img = (width, height) \<and> pil_resize pil img (max_width, nh) = None \<longrightarrow>
                resize_step pil max_width img = Inr (img\<lparr>img_size := (max_width, nh)\<rparr>))"
    by blast
next
  assume h: "process_one pil max_width cfg fs image_path = Some (fs', Inr output_path)
        \<and> image_open pil fs image_path = Inr img0 \<and> img_size img0 = (width, height)
        \<and> max_width < width"
  then have po: "process_one pil max_width cfg fs image_path = Some (fs', Inr output_path)"
    and io: "image_open pil fs image_path = Inr img0" and sz: "img_size img0 = (width, height)"
    and wd: "max_width < width" by blast+
  from process_one_success[OF po] io obtain img2 c where
    rs: "resize_step pil max_width (img0\<lparr>img_mode := ''RGB''\<rparr>) = Inr img2"
    and sv: "pil_save pil (save_arguments (fst cfg)) img2 = Inr c"
    and new: "map_of fs' output_path = Some (File c)" by auto
  have sz1: "img_size (img0\<lparr>img_mode := ''RGB''\<rparr>) = (width, height)" using sz by simp
  show "\<exists>nh c. new_height max_width width height = Inr nh
            \<and> pil_save pil (save_arguments (fst cfg))
                  (img0\<lparr>img_mode := ''RGB'', img_size := (max_width, nh)\<rparr>) = Inr c
            \<and> map_of fs' output_path = Some (File c)"
  proof (cases "new_height max_width width height")
    case (Inl e)
    with rs show ?thesis unfolding resize_step_wider[OF sz1 wd] by simp
  next
    case (Inr nh)
    with rs have "resize pil (img0\<lparr>img_mode := ''RGB''\<rparr>) (max_width, nh) = Inr img2"
      unfolding resize_step_wider[OF sz1 wd] by simp
    then have "img2 = img0\<lparr>img_mode := ''RGB'', img_size := (max_width, nh)\<rparr>"
      by (simp add: resize_def split: option.splits)
    with Inr sv new show ?thesis by blast
  qed
next
  show "new_height 1000 2000 1000 = Inr 500" by (rule new_height_2000_1000)
next
  assume "pil_resize pil \<lparr>img_size = (2000, 1000), img_mode = md\<rparr> (1000, 500) = None"
  then show "resize_step pil 1000 \<lparr>img_size = (2000, 1000), img_mode = md\<rparr>
          = Inr \<lparr>img_size = (1000, 500), img_mode = md\<rparr>"
    by (simp add: resize_step_def new_height_2000_1000 resize_def)
qed

theorem resize_dimensions_witness:
  "(0 :: int) < 1200 \<and> (1200 :: int) < 4000 \<and> (0 :: int) < 3001
   \<and> (4000 :: int) \<le> 2 ^ 25 \<and> (3001 :: int) \<le> 2 ^ 25
   \<and> \<not> (4000 :: int) dvd 1200 * 3001
   \<and> new_height 1200 4000 3001 = Inr 900"
proof -
  have hy: "(0 :: int) < 1200 \<and> (1200 :: int) < 4000 \<and> (0 :: int) < 3001
      \<and> (4000 :: int) \<le> 2 ^ 25 \<and> (3001 :: int) \<le> 2 ^ 25" by simp
  have nd: "\<not> (4000 :: int) dvd 1200 * 3001" by simp
  note t = resize_dimensions[where max_width = 1200 and width = 4000 and height = 3001,
      THEN conjunct1, rule_format, OF hy]
  from t obtain nh where a: "new_height 1200 4000 3001 = Inr nh"
    and b: "\<not> (4000 :: int) dvd 1200 * 3001 \<longrightarrow> nh = (1200 * 3001) div 4000" by blast
  from b nd have "nh = 900" by simp
  with a hy nd show ?thesis by simp
qed

text \<open>
  The claim as stated fails: at the default maximum width of 1200 an image 1392 by 1160
  gets the height 999, while the floor of \<open>1200 * 1160 / 1392\<close> is 1000.
\<close>

theorem resize_dimensions_counterexample:
  "new_height 1200 1392 1160 = Inr 999
   \<and> (1200 * 1160) div 1392 = (1000 :: int)
   \<and> resize_step example_pil 1200 \<lparr>img_size = (1392, 1160), img_mode = ''RGB''\<rparr>
       = Inr \<lparr>img_size = (1200, 999), img_mode = ''RGB''\<rparr>"
  by (simp add: new_height_1392_1160 resize_step_def resize_def example_pil_def)

end
